theory Spec2Isabelle
  imports Complex_Main "HOL-Library.Multiset"
begin

unbundle bit_operations_syntax

section \<open>Machine integers, build constants and errors\<close>

text \<open>
  All machine integers of \<^verbatim>\<open>span.cc\<close> are modelled as natural numbers with the
  truncation of the C++ type written out: \<^verbatim>\<open>ObjIdx\<close> and the \<^verbatim>\<open>uint16_t\<close> fields are
  reduced modulo \<open>2 ^ 16\<close>, \<^verbatim>\<open>size_t\<close>, \<^verbatim>\<open>uintptr_t\<close> and \<^verbatim>\<open>uint64_t\<close> modulo
  \<open>2 ^ 64\<close>. A pointer is the address it holds, \<open>0\<close> being \<^verbatim>\<open>nullptr\<close>.
\<close>

definition u16 :: "nat \<Rightarrow> nat" where
  "u16 x = x mod 2 ^ 16"

definition u64 :: "nat \<Rightarrow> nat" where
  "u64 x = x mod 2 ^ 64"

text \<open>
  The constants of \<^verbatim>\<open>common.h\<close> and \<^verbatim>\<open>span.h\<close> that \<^verbatim>\<open>span.cc\<close> uses are not part of
  the file; they are parameters of the model. \<open>debug_build\<close> says whether \<^verbatim>\<open>ASSERT\<close>
  is compiled in (it aborts on a false condition) or compiled out (\<^verbatim>\<open>NDEBUG\<close>).
\<close>

record config =
  debug_build :: bool
  kPageShift :: nat
  kAlignmentShift :: nat
  kMultiPageSize :: nat
  kMultiPageAlignmentShift :: nat
  kListEnd :: nat

definition kPageSize :: "config \<Rightarrow> nat" where
  "kPageSize c = 2 ^ kPageShift c"

definition kAlignment :: "config \<Rightarrow> nat" where
  "kAlignment c = 2 ^ kAlignmentShift c"

definition kMultiPageAlignment :: "config \<Rightarrow> nat" where
  "kMultiPageAlignment c = 2 ^ kMultiPageAlignmentShift c"

text \<open>
  Modelled from the spec: the declaration of \<^verbatim>\<open>kCacheSize\<close> in \<^verbatim>\<open>span.h\<close> is missing;
  the inline cache has capacity 4 (also the comment "a small array-based cache
  (4 objects)" of \<^verbatim>\<open>span.cc\<close>).
\<close>

definition kCacheSize :: nat where
  "kCacheSize = 4"

text \<open>
  Modelled from the spec: the declaration of \<^verbatim>\<open>ObjIdx\<close> in \<^verbatim>\<open>span.h\<close> is missing; an
  index is 16 bits wide, so \<^verbatim>\<open>sizeof(ObjIdx)\<close> is 2 ("2-byte indices").
\<close>

definition sizeof_ObjIdx :: nat where
  "sizeof_ObjIdx = 2"

datatype error = AssertFailed | NullDereference | DivisionByZero | BadDoubleToInt
  | UninitializedRead | OutOfBounds

text \<open>The constants are consistent when the shifts fit the 64-bit address and the
  sentinel is a 16-bit value above every index of a one-page span.\<close>

definition wf_config :: "config \<Rightarrow> bool" where
  "wf_config c \<longleftrightarrow>
     kPageShift c < 64 \<and> 1 \<le> kAlignmentShift c \<and> kAlignmentShift c \<le> kPageShift c \<and>
     kAlignmentShift c \<le> kMultiPageAlignmentShift c \<and> kMultiPageAlignmentShift c < 48 \<and>
     kListEnd c < 2 ^ 16 \<and> kPageSize c div kAlignment c \<le> kListEnd c"

section \<open>The span and the process-wide state\<close>

record Span =
  first_page :: nat
  num_pages :: nat
  allocated :: nat
  freelist :: nat
  embed_count :: nat
  cache :: "nat list"
  cache_size :: nat
  sampled :: bool
  sampled_stack :: nat
  freelist_added_time :: nat

text \<open>
  Modelled from the spec: \<^verbatim>\<open>pages.h\<close> is missing. A page identifier is the page's
  number; its start address is the number shifted left by \<^verbatim>\<open>kPageShift\<close>, and the page
  containing an address is the address shifted right by \<^verbatim>\<open>kPageShift\<close>.
\<close>

definition start_uintptr :: "config \<Rightarrow> nat \<Rightarrow> nat" where
  "start_uintptr c pn = u64 (pn * 2 ^ kPageShift c)"

definition PageIdContaining :: "config \<Rightarrow> nat \<Rightarrow> nat" where
  "PageIdContaining c p = p div 2 ^ kPageShift c"

text \<open>
  Modelled from the spec: \<^verbatim>\<open>bytes_in_span\<close> of \<^verbatim>\<open>span.h\<close> is missing; it is the span's
  total byte size, the page count times the page size as a \<^verbatim>\<open>size_t\<close>.
\<close>

definition bytes_in_span :: "config \<Rightarrow> Span \<Rightarrow> nat" where
  "bytes_in_span c s = u64 (num_pages s * 2 ^ kPageShift c)"

section \<open>Index and address conversion\<close>

definition PtrToIdx :: "config \<Rightarrow> Span \<Rightarrow> nat \<Rightarrow> nat \<Rightarrow> error + nat" where
  "PtrToIdx c s ptr sz =
     (let p = ptr in
      if sz \<le> kMultiPageSize c \<and> debug_build c \<and> PageIdContaining c ptr \<noteq> first_page s
      then Inl AssertFailed
      else
        let off = (if sz \<le> kMultiPageSize c
                   then (p AND (kPageSize c - 1)) div kAlignment c
                   else u64 (p + 2 ^ 64 - start_uintptr c (first_page s))
                          div kMultiPageAlignment c);
            idx = u16 off
        in if debug_build c \<and> idx = kListEnd c then Inl AssertFailed
           else if debug_build c \<and> idx \<noteq> off then Inl AssertFailed
           else Inr idx)"

definition IdxToPtr :: "config \<Rightarrow> Span \<Rightarrow> nat \<Rightarrow> nat \<Rightarrow> error + nat" where
  "IdxToPtr c s idx sz =
     (if debug_build c \<and> idx = kListEnd c then Inl AssertFailed
      else
        let off = u64 (start_uintptr c (first_page s) +
                       u64 (idx * 2 ^ (if sz \<le> kMultiPageSize c
                                       then kAlignmentShift c
                                       else kMultiPageAlignmentShift c)));
            ptr = off
        in if debug_build c \<and> PtrToIdx c s ptr sz \<noteq> Inr idx then Inl AssertFailed
           else Inr ptr)"

text \<open>The alignment shift of the addressing mode that an object size selects.\<close>

definition mode_shift :: "config \<Rightarrow> nat \<Rightarrow> nat" where
  "mode_shift c sz =
     (if sz \<le> kMultiPageSize c then kAlignmentShift c else kMultiPageAlignmentShift c)"

text \<open>
  An index is valid for a span and an object size when it is a 16-bit value other
  than the sentinel, the object it names lies in the 64-bit address space and, in
  the small-object mode, the object starts in the span's first page.
\<close>

definition valid_index :: "config \<Rightarrow> Span \<Rightarrow> nat \<Rightarrow> nat \<Rightarrow> bool" where
  "valid_index c s sz i \<longleftrightarrow>
     i < 2 ^ 16 \<and> i \<noteq> kListEnd c \<and>
     first_page s * kPageSize c + i * 2 ^ mode_shift c sz < 2 ^ 64 \<and>
     (kMultiPageSize c < sz \<or> i * kAlignment c < kPageSize c)"

section \<open>Sampling bookkeeping\<close>

text \<open>
  \<^verbatim>\<open>Sample\<close> and \<^verbatim>\<open>Unsample\<close> change the span they are called on and two objects of
  \<^verbatim>\<open>Static\<close>: the list of sampled spans and the counter of sampled bytes. The state
  they run in holds the spans by address, the stack records by address, the list
  (span addresses, head first) and the counter. The type \<open>'t\<close> is \<^verbatim>\<open>StackTrace\<close>.
\<close>

record 't world =
  span_heap :: "nat \<Rightarrow> Span"
  stack_heap :: "nat \<Rightarrow> 't"
  sampled_objects :: "nat list"
  sampled_objects_size :: int

text \<open>
  Modelled from the spec: \<^verbatim>\<open>atomic_stats_counter.h\<close> is missing. The counter holds a
  signed 64-bit \<^verbatim>\<open>Value\<close>; \<^verbatim>\<open>LossyAdd\<close> stores the sum of the loaded value and its
  argument, in two's complement. \<open>to_Value\<close> is the cast of a \<^verbatim>\<open>size_t\<close> to \<^verbatim>\<open>Value\<close>
  and \<open>neg_Value\<close> the negation of a \<^verbatim>\<open>Value\<close>.
\<close>

definition to_Value :: "nat \<Rightarrow> int" where
  "to_Value n = signed_take_bit 63 (int n)"

definition neg_Value :: "int \<Rightarrow> int" where
  "neg_Value v = signed_take_bit 63 (- v)"

definition LossyAdd :: "int \<Rightarrow> int \<Rightarrow> int" where
  "LossyAdd counter val = signed_take_bit 63 (counter + val)"

text \<open>
  Modelled from the spec: the intrusive list of \<^verbatim>\<open>span.h\<close> is missing; it supports
  prepending a span and removing a given span.
\<close>

definition prepend :: "nat \<Rightarrow> nat list \<Rightarrow> nat list" where
  "prepend this l = this # l"

definition RemoveFromList :: "nat \<Rightarrow> nat list \<Rightarrow> nat list" where
  "RemoveFromList this l = remove1 this l"

text \<open>
  \<open>AllocatedBytes\<close> (of \<^verbatim>\<open>sampler.h\<close>) is a parameter: the byte estimate of a stack
  record. Dereferencing a null \<^verbatim>\<open>stack\<close> is an error of its own.
\<close>

definition Sample ::
  "config \<Rightarrow> ('t \<Rightarrow> bool \<Rightarrow> nat) \<Rightarrow> nat \<Rightarrow> nat \<Rightarrow> 't world \<Rightarrow> error + 't world" where
  "Sample c AllocatedBytes this stack w =
     (let s = span_heap w this in
      if debug_build c \<and> \<not> (\<not> sampled s \<and> stack \<noteq> 0) then Inl AssertFailed
      else if stack = 0 then Inl NullDereference
      else Inr (w\<lparr>span_heap := (span_heap w)(this := s\<lparr>sampled := True, sampled_stack := stack\<rparr>),
                  sampled_objects := prepend this (sampled_objects w),
                  sampled_objects_size :=
                    LossyAdd (sampled_objects_size w)
                      (to_Value (AllocatedBytes (stack_heap w stack) True))\<rparr>))"

definition Unsample ::
  "('t \<Rightarrow> bool \<Rightarrow> nat) \<Rightarrow> nat \<Rightarrow> 't world \<Rightarrow> error + (nat \<times> 't world)" where
  "Unsample AllocatedBytes this w =
     (let s = span_heap w this in
      if \<not> sampled s then Inr (0, w)
      else
        let stack = sampled_stack s in
        if stack = 0 then Inl NullDereference
        else Inr (stack,
               w\<lparr>span_heap := (span_heap w)(this := s\<lparr>sampled := False, sampled_stack := 0\<rparr>),
                 sampled_objects := RemoveFromList this (sampled_objects w),
                 sampled_objects_size :=
                   LossyAdd (sampled_objects_size w)
                     (neg_Value (to_Value (AllocatedBytes (stack_heap w stack) True)))\<rparr>))"

section \<open>Fragmentation and the averaged timestamp\<close>

text \<open>
  A \<^verbatim>\<open>double\<close> is modelled by the real number it holds. Every conversion to
  \<^verbatim>\<open>double\<close> and every arithmetic operation on doubles rounds its exact result; the
  rounding function \<open>rd\<close> is a parameter of the model. The two facts about IEEE 754
  binary64 rounding to nearest that the theorems below assume of \<open>rd\<close> are: a natural
  number up to \<open>2 ^ 53\<close> is represented exactly, and the relative error of rounding a
  positive number in the normal range is at most \<open>2 powr -53\<close>.
\<close>

definition exact_on_small_nats :: "(real \<Rightarrow> real) \<Rightarrow> bool" where
  "exact_on_small_nats rd \<longleftrightarrow> (\<forall>n::nat. n \<le> 2 ^ 53 \<longrightarrow> rd (real n) = real n)"

definition relative_error_bounded :: "(real \<Rightarrow> real) \<Rightarrow> bool" where
  "relative_error_bounded rd \<longleftrightarrow>
     (\<forall>x::real. 1 / 2 ^ 1022 \<le> x \<and> x \<le> 2 ^ 1023 \<longrightarrow> \<bar>rd x - x\<bar> \<le> x / 2 ^ 53)"

text \<open>
  The rounding of IEEE 754 binary64 to nearest, ties to even: a nonzero number is
  scaled to a significand of 53 bits, which is rounded to an integer. The exponent
  is not bounded here, so the function models \<^verbatim>\<open>double\<close> where no overflow to infinity
  and no subnormal number occurs.
\<close>

definition round_half_even :: "real \<Rightarrow> int" where
  "round_half_even y =
     (let f = \<lfloor>y\<rfloor>; r = y - of_int f
      in if r < 1 / 2 then f else if 1 / 2 < r then f + 1 else if even f then f else f + 1)"

definition double_round :: "real \<Rightarrow> real" where
  "double_round x =
     (if x = 0 then 0
      else
        let e = \<lfloor>log 2 \<bar>x\<bar>\<rfloor> - 52;
            m = round_half_even (\<bar>x\<bar> / 2 powr of_int e)
        in sgn x * (of_int m * 2 powr of_int e))"

text \<open>
  \<open>sizeclass\<close> (the page map's lookup of a page's size class) and \<open>class_to_size\<close>
  (the size map's object size of a class) are parameters. A division by an object
  size of zero is an error of its own.
\<close>

definition Fragmentation ::
  "(real \<Rightarrow> real) \<Rightarrow> config \<Rightarrow> (nat \<Rightarrow> nat) \<Rightarrow> (nat \<Rightarrow> nat) \<Rightarrow> Span \<Rightarrow> error + real" where
  "Fragmentation rd c sizeclass class_to_size s =
     (let cl = sizeclass (first_page s) in
      if cl = 0 then (if debug_build c then Inl AssertFailed else Inr 0)
      else
        let obj_size = class_to_size cl in
        if obj_size = 0 then Inl DivisionByZero
        else
          let span_objects = bytes_in_span c s div obj_size;
              live = allocated s
          in if live = 0 then (if debug_build c then Inl AssertFailed else Inr 0)
             else Inr (rd (rd (real (u64 (span_objects + 2 ^ 64 - live))) / rd (real live))))"

text \<open>
  The conversion of a \<^verbatim>\<open>double\<close> to \<^verbatim>\<open>uint64_t\<close> truncates; it is undefined for a
  value outside the range of the type, and so is the quotient by a zero page count,
  which is not a number.
\<close>

definition AverageFreelistAddedTime :: "(real \<Rightarrow> real) \<Rightarrow> Span \<Rightarrow> Span \<Rightarrow> error + Span" where
  "AverageFreelistAddedTime rd s other =
     (let num = rd (rd (rd (real (freelist_added_time s)) * rd (real (num_pages s))) +
                    rd (rd (real (freelist_added_time other)) * rd (real (num_pages other))));
          den = u64 (num_pages s + num_pages other)
      in if den = 0 then Inl BadDoubleToInt
         else
           let q = rd (num / rd (real den)) in
           if q < 0 \<or> 2 ^ 64 \<le> q then Inl BadDoubleToInt
           else Inr (s\<lparr>freelist_added_time := nat \<lfloor>q\<rfloor>\<rparr>))"

section \<open>Building the free list\<close>

text \<open>
  The memory of the span's objects is a partial map from the address of a 2-byte
  cell to the \<^verbatim>\<open>ObjIdx\<close> stored there; an address that no store has reached maps to
  \<open>None\<close>. Every access of \<^verbatim>\<open>span.cc\<close> to this memory is an \<^verbatim>\<open>ObjIdx\<close> access
  \<^verbatim>\<open>host[k]\<close>, at the address \<open>slot host k\<close>.
\<close>

type_synonym memory = "nat \<Rightarrow> nat option"

definition slot :: "nat \<Rightarrow> nat \<Rightarrow> nat" where
  "slot host k = u64 (host + sizeof_ObjIdx * k)"

function cache_loop ::
  "nat \<Rightarrow> nat \<Rightarrow> nat \<Rightarrow> nat list \<Rightarrow> nat \<Rightarrow> nat \<times> nat list \<times> nat" where
  "cache_loop idxStep idxEnd idx cache_arr cache_sz =
     (if idx < idxEnd \<and> cache_sz < kCacheSize
      then cache_loop idxStep idxEnd (u16 (idx + idxStep)) (cache_arr[cache_sz := idx])
             (cache_sz + 1)
      else (idx, cache_arr, cache_sz))"
  by pat_completeness auto
termination
  by (relation "measure (\<lambda>(idxStep, idxEnd, idx, cache_arr, cache_sz). kCacheSize - cache_sz)")
    auto

declare cache_loop.simps [simp del]

text \<open>
  The second loop of \<^verbatim>\<open>BuildFreelist\<close>. It returns the final \<^verbatim>\<open>embed_count\<close>,
  \<^verbatim>\<open>freelist_\<close> and memory; \<open>None\<close> stands for a loop that never ends.
\<close>

partial_function (option) build_loop ::
  "config \<Rightarrow> Span \<Rightarrow> nat \<Rightarrow> nat \<Rightarrow> nat \<Rightarrow> nat \<Rightarrow> nat \<Rightarrow> nat \<Rightarrow> nat \<Rightarrow> nat \<Rightarrow> memory
     \<Rightarrow> (error + nat \<times> nat \<times> memory) option" where
  "build_loop c s sz idxStep max_embed idx idxEnd host embed_cnt fl mem =
     (if idx < idxEnd then
        if debug_build c \<and> idx = kListEnd c then Some (Inl AssertFailed)
        else if host \<noteq> 0 \<and> embed_cnt \<noteq> max_embed then
          let embed_cnt' = embed_cnt + 1;
              idxEnd' = u16 (idxEnd + 2 ^ 16 - idxStep)
          in build_loop c s sz idxStep max_embed idx idxEnd' host embed_cnt' fl
               (mem(slot host embed_cnt' \<mapsto> idxEnd'))
        else
          (case IdxToPtr c s idx sz of
             Inl e \<Rightarrow> Some (Inl e)
           | Inr host' \<Rightarrow>
               build_loop c s sz idxStep max_embed (u16 (idx + idxStep)) idxEnd host' 0 idx
                 (mem(slot host' 0 \<mapsto> fl)))
      else Some (Inr (embed_cnt, fl, mem)))"

definition max_embed_of :: "nat \<Rightarrow> nat" where
  "max_embed_of sz = u64 (sz div sizeof_ObjIdx + 2 ^ 64 - 1)"

definition BuildFreelist ::
  "config \<Rightarrow> Span \<Rightarrow> nat \<Rightarrow> nat \<Rightarrow> memory \<Rightarrow> (error + Span \<times> memory) option" where
  "BuildFreelist c s sz cnt mem =
     (let idx = 0;
          idxStep = (if sz > kMultiPageSize c then u16 (sz div kMultiPageAlignment c)
                     else u16 (sz div kAlignment c))
      in if debug_build c \<and> \<not> u64 (cnt * idxStep) < kListEnd c then Some (Inl AssertFailed)
         else
           let idxEnd = u16 (u64 (cnt * idxStep));
               (idx', cache', cache_sz) = cache_loop idxStep idxEnd idx (cache s) 0;
               max_embed = max_embed_of sz
           in case build_loop c s sz idxStep max_embed idx' idxEnd 0 0 (kListEnd c) mem of
                None \<Rightarrow> None
              | Some (Inl e) \<Rightarrow> Some (Inl e)
              | Some (Inr (embed_cnt, fl, mem')) \<Rightarrow>
                  Some (Inr (s\<lparr>allocated := 0, freelist := fl, embed_count := u16 embed_cnt,
                               cache := cache', cache_size := cache_sz\<rparr>, mem')))"

section \<open>Popping a batch\<close>

datatype Align = SMALL | LARGE

text \<open>
  Modelled from the spec: \<^verbatim>\<open>IdxToPtrSized\<close> of \<^verbatim>\<open>span.h\<close> is missing. It is
  \<^verbatim>\<open>IdxToPtr\<close> with the addressing mode chosen by the caller, once for a call of
  \<^verbatim>\<open>FreelistPopBatch\<close>: it shifts the index up by the alignment of the mode and adds
  the span's base.
\<close>

definition IdxToPtrSized :: "config \<Rightarrow> Span \<Rightarrow> Align \<Rightarrow> nat \<Rightarrow> nat \<Rightarrow> error + nat" where
  "IdxToPtrSized c s align idx sz =
     (if debug_build c \<and> idx = kListEnd c then Inl AssertFailed
      else
        let off = u64 (start_uintptr c (first_page s) +
                       u64 (idx * 2 ^ (case align of SMALL \<Rightarrow> kAlignmentShift c
                                       | LARGE \<Rightarrow> kMultiPageAlignmentShift c)));
            ptr = off
        in if debug_build c \<and> PtrToIdx c s ptr sz \<noteq> Inr idx then Inl AssertFailed
           else Inr ptr)"

text \<open>
  Modelled from the spec: \<^verbatim>\<open>FreelistPopBatchSized\<close> of \<^verbatim>\<open>span.h\<close> is missing. It
  produces up to \<open>n\<close> objects, one at a time: first it drains the inline cache; then it
  follows the chain, reading the embedded indices of the head node (decrementing
  \<^verbatim>\<open>embed_count_\<close>) until the node is exhausted, when the node itself is handed out,
  \<^verbatim>\<open>freelist_\<close> advances to the node's forward link and \<^verbatim>\<open>embed_count_\<close> is reset for
  the new head, which is full ("any subsequent objects in the list's arrays are
  guaranteed to be full", \<^verbatim>\<open>span.cc\<close>); it stops at the sentinel. A read of the cache
  beyond its capacity and a read of a cell that was never stored to are errors.
  \<open>prepend_object\<close> puts an object in front of the batch that the rest of the loop
  produces.
\<close>

definition prepend_object :: "nat \<Rightarrow> error + nat list \<times> Span \<Rightarrow> error + nat list \<times> Span" where
  "prepend_object p r = (case r of Inl e \<Rightarrow> Inl e | Inr (batch, s') \<Rightarrow> Inr (p # batch, s'))"

fun pop_objects ::
  "config \<Rightarrow> Align \<Rightarrow> nat \<Rightarrow> memory \<Rightarrow> nat \<Rightarrow> Span \<Rightarrow> error + nat list \<times> Span" where
  "pop_objects c align sz mem 0 s = Inr ([], s)"
| "pop_objects c align sz mem (Suc n) s =
     (if 0 < cache_size s then
        if length (cache s) < cache_size s then Inl OutOfBounds
        else
          (case IdxToPtrSized c s align (cache s ! (cache_size s - 1)) sz of
             Inl e \<Rightarrow> Inl e
           | Inr p \<Rightarrow>
               prepend_object p
                 (pop_objects c align sz mem n (s\<lparr>cache_size := cache_size s - 1\<rparr>)))
      else if freelist s = kListEnd c then Inr ([], s)
      else
        (case IdxToPtrSized c s align (freelist s) sz of
           Inl e \<Rightarrow> Inl e
         | Inr host \<Rightarrow>
             if 0 < embed_count s then
               (case mem (slot host (embed_count s)) of
                  None \<Rightarrow> Inl UninitializedRead
                | Some idx \<Rightarrow>
                    (case IdxToPtrSized c s align idx sz of
                       Inl e \<Rightarrow> Inl e
                     | Inr p \<Rightarrow>
                         prepend_object p
                           (pop_objects c align sz mem n
                              (s\<lparr>embed_count := embed_count s - 1\<rparr>))))
             else
               (case mem (slot host 0) of
                  None \<Rightarrow> Inl UninitializedRead
                | Some nxt \<Rightarrow>
                    prepend_object host
                      (pop_objects c align sz mem n
                         (s\<lparr>freelist := nxt, embed_count := max_embed_of sz\<rparr>)))))"

definition FreelistPopBatchSized ::
  "config \<Rightarrow> Align \<Rightarrow> memory \<Rightarrow> Span \<Rightarrow> nat \<Rightarrow> nat \<Rightarrow> error + nat list \<times> Span" where
  "FreelistPopBatchSized c align mem s N sz =
     (case pop_objects c align sz mem N s of
        Inl e \<Rightarrow> Inl e
      | Inr (batch, s') \<Rightarrow> Inr (batch, s'\<lparr>allocated := u16 (allocated s' + length batch)\<rparr>))"

text \<open>
  \<^verbatim>\<open>FreelistPopBatch\<close> returns the batch it wrote; the count it returns is the length
  of the batch.
\<close>

definition FreelistPopBatch ::
  "config \<Rightarrow> memory \<Rightarrow> Span \<Rightarrow> nat \<Rightarrow> nat \<Rightarrow> error + nat list \<times> Span" where
  "FreelistPopBatch c mem s N sz =
     (if sz \<le> kMultiPageSize c then FreelistPopBatchSized c SMALL mem s N sz
      else FreelistPopBatchSized c LARGE mem s N sz)"

text \<open>
  The consumer of the pop-exhaustion property: it calls \<^verbatim>\<open>FreelistPopBatch\<close> with
  the same \<open>N\<close> until a call returns 0, and collects the batches. \<open>None\<close> stands for a
  loop that never ends.
\<close>

partial_function (option) pop_until_empty ::
  "config \<Rightarrow> memory \<Rightarrow> nat \<Rightarrow> nat \<Rightarrow> Span \<Rightarrow> nat list \<Rightarrow> (error + nat list \<times> Span) option" where
  "pop_until_empty c mem N sz s acc =
     (case FreelistPopBatch c mem s N sz of
        Inl e \<Rightarrow> Some (Inl e)
      | Inr (batch, s') \<Rightarrow>
          if length batch = 0 then Some (Inr (acc, s'))
          else pop_until_empty c mem N sz s' (acc @ batch))"

section \<open>Reading the free list back\<close>

text \<open>The address of the object with a given index, as \<^verbatim>\<open>IdxToPtr\<close> computes it.\<close>

definition obj_addr :: "config \<Rightarrow> Span \<Rightarrow> nat \<Rightarrow> nat \<Rightarrow> nat" where
  "obj_addr c s sz i = u64 (start_uintptr c (first_page s) + u64 (i * 2 ^ mode_shift c sz))"

definition cache_indices :: "Span \<Rightarrow> nat list" where
  "cache_indices s = take (cache_size s) (cache s)"

text \<open>The contents of the cells \<^verbatim>\<open>host[1]\<close> to \<^verbatim>\<open>host[n]\<close>, if all were stored to.\<close>

definition read_embedded :: "memory \<Rightarrow> nat \<Rightarrow> nat \<Rightarrow> nat list option" where
  "read_embedded mem host n = those (map (\<lambda>k. mem (slot host k)) [1..<Suc n])"

text \<open>
  The chain from a head index: each node with its embedded entries, the head node
  holding \<open>embed_cnt\<close> of them and every later node \<open>max_embed_of sz\<close>, as the pop
  reads them. The chain is followed for at most \<open>fuel\<close> nodes; the result is \<open>None\<close>
  when it is longer or a cell it reads was never stored to.
\<close>

fun chain_nodes ::
  "config \<Rightarrow> Span \<Rightarrow> nat \<Rightarrow> memory \<Rightarrow> nat \<Rightarrow> nat \<Rightarrow> nat \<Rightarrow> (nat \<times> nat list) list option" where
  "chain_nodes c s sz mem 0 head embed_cnt = (if head = kListEnd c then Some [] else None)"
| "chain_nodes c s sz mem (Suc fuel) head embed_cnt =
     (if head = kListEnd c then Some []
      else
        (case mem (slot (obj_addr c s sz head) 0) of
           None \<Rightarrow> None
         | Some nxt \<Rightarrow>
             (case read_embedded mem (obj_addr c s sz head) embed_cnt of
                None \<Rightarrow> None
              | Some es \<Rightarrow>
                  (case chain_nodes c s sz mem fuel nxt (max_embed_of sz) of
                     None \<Rightarrow> None
                   | Some rest \<Rightarrow> Some ((head, es) # rest)))))"

text \<open>The free indices that a span holds: the inline cache, then each chain node
  followed by its embedded entries.\<close>

definition node_indices :: "(nat \<times> nat list) list \<Rightarrow> nat list" where
  "node_indices nodes = concat (map (\<lambda>(i, es). i # es) nodes)"

definition free_indices :: "Span \<Rightarrow> (nat \<times> nat list) list \<Rightarrow> nat list" where
  "free_indices s nodes = cache_indices s @ node_indices nodes"

text \<open>The indices of the \<open>cnt\<close> objects of a span, \<open>idxStep\<close> apart.\<close>

definition object_indices :: "nat \<Rightarrow> nat \<Rightarrow> nat list" where
  "object_indices idxStep cnt = map (\<lambda>k. k * idxStep) [0..<cnt]"

definition idx_step :: "config \<Rightarrow> nat \<Rightarrow> nat" where
  "idx_step c sz = sz div 2 ^ mode_shift c sz"

text \<open>
  The embedded cells of an object that hold an entry: the slots from 1 up to the
  last slot of the object that some store has reached.
\<close>

definition stored_embedded :: "memory \<Rightarrow> nat \<Rightarrow> nat \<Rightarrow> nat list" where
  "stored_embedded mem host sz =
     filter (\<lambda>k. mem (slot host k) \<noteq> None) [1..<sz div sizeof_ObjIdx]"

text \<open>
  The inputs of \<^verbatim>\<open>BuildFreelist\<close> are legal when the constants are consistent, the
  cache array has its capacity, the object size is a positive multiple of the
  alignment of its addressing mode, the end index of the \<open>cnt\<close> objects is below the
  sentinel (the \<^verbatim>\<open>ASSERT\<close> of \<^verbatim>\<open>BuildFreelist\<close>), the objects lie in the address space
  and, in the small-object mode, in the span's first page.
\<close>

definition legal_build :: "config \<Rightarrow> Span \<Rightarrow> nat \<Rightarrow> nat \<Rightarrow> bool" where
  "legal_build c s sz cnt \<longleftrightarrow>
     wf_config c \<and> length (cache s) = kCacheSize \<and>
     0 < sz \<and> sz mod 2 ^ mode_shift c sz = 0 \<and>
     cnt * idx_step c sz < kListEnd c \<and>
     first_page s * kPageSize c + cnt * sz < 2 ^ 64 \<and>
     (kMultiPageSize c < sz \<or> cnt * sz \<le> kPageSize c)"

text \<open>The object capacity of a span: its bytes divided by the object size of its
  size class.\<close>

definition span_capacity :: "config \<Rightarrow> (nat \<Rightarrow> nat) \<Rightarrow> (nat \<Rightarrow> nat) \<Rightarrow> Span \<Rightarrow> nat" where
  "span_capacity c sizeclass class_to_size s =
     bytes_in_span c s div class_to_size (sizeclass (first_page s))"

section \<open>The representation of a built free list\<close>

text \<open>The address of the span's first byte, without the 64-bit truncation.\<close>

definition span_base :: "config \<Rightarrow> Span \<Rightarrow> nat" where
  "span_base c s = first_page s * kPageSize c"

text \<open>The address of cell \<open>k\<close> of the \<open>n\<close>-th object of the span.\<close>

definition cell_addr :: "config \<Rightarrow> Span \<Rightarrow> nat \<Rightarrow> nat \<Rightarrow> nat \<Rightarrow> nat" where
  "cell_addr c s sz n k = span_base c s + n * sz + 2 * k"

text \<open>
  A chain of nodes in memory, by object number: a node is the number of its object
  and the object numbers of its embedded entries. The head index names the first
  node, which has \<open>ec\<close> embedded entries in its cells 1 to \<open>ec\<close>; its cell 0 holds
  the index of the next node, which has \<open>max_embed_of sz\<close> entries; the last link is
  the sentinel.
\<close>

fun chain_at ::
  "config \<Rightarrow> Span \<Rightarrow> nat \<Rightarrow> memory \<Rightarrow> nat \<Rightarrow> nat \<Rightarrow> (nat \<times> nat list) list \<Rightarrow> bool" where
  "chain_at c s sz mem head ec [] \<longleftrightarrow> head = kListEnd c"
| "chain_at c s sz mem head ec ((n, ms) # rest) \<longleftrightarrow>
     head = n * idx_step c sz \<and> length ms = ec \<and>
     (\<forall>k<ec. mem (cell_addr c s sz n (Suc k)) = Some (ms ! k * idx_step c sz)) \<and>
     (\<exists>nxt. mem (cell_addr c s sz n 0) = Some nxt \<and>
            chain_at c s sz mem nxt (max_embed_of sz) rest)"

text \<open>The cells that the nodes of a chain occupy: the link and the embedded
  entries of each node.\<close>

definition chain_cells :: "config \<Rightarrow> Span \<Rightarrow> nat \<Rightarrow> (nat \<times> nat list) list \<Rightarrow> nat set" where
  "chain_cells c s sz ns = {cell_addr c s sz n k | n ms k. (n, ms) \<in> set ns \<and> k \<le> length ms}"

text \<open>The number of objects that the first loop of \<^verbatim>\<open>BuildFreelist\<close> puts in the
  cache.\<close>

definition cached_count :: "nat \<Rightarrow> nat" where
  "cached_count cnt = min cnt kCacheSize"

text \<open>
  The invariant of the second loop of \<^verbatim>\<open>BuildFreelist\<close>, with \<^verbatim>\<open>idx\<close> at object \<open>a\<close>
  and \<^verbatim>\<open>idxEnd\<close> at object \<open>b\<close>: the chain holds the objects from the cache's end up
  to \<open>a\<close> as nodes, newest first, and the objects from \<open>b\<close> on as embedded entries;
  \<^verbatim>\<open>host\<close> is the head node; the cells stored to since the call are the chain's.
\<close>

definition build_inv ::
  "config \<Rightarrow> Span \<Rightarrow> nat \<Rightarrow> nat \<Rightarrow> memory \<Rightarrow> nat \<Rightarrow> nat \<Rightarrow> nat \<Rightarrow> nat \<Rightarrow> nat \<Rightarrow> memory
     \<Rightarrow> (nat \<times> nat list) list \<Rightarrow> bool" where
  "build_inv c s sz cnt mem0 a b host ec fl mem ns \<longleftrightarrow>
     cached_count cnt \<le> a \<and> a \<le> b \<and> b \<le> cnt \<and>
     chain_at c s sz mem fl ec ns \<and>
     map fst ns = rev [cached_count cnt..<a] \<and>
     mset (concat (map snd ns)) = mset [b..<cnt] \<and>
     ec \<le> max_embed_of sz \<and>
     (ns = [] \<longrightarrow> host = 0 \<and> ec = 0) \<and>
     (ns \<noteq> [] \<longrightarrow> host = cell_addr c s sz (a - 1) 0) \<and>
     dom mem = dom mem0 \<union> chain_cells c s sz ns"

text \<open>The result of \<^verbatim>\<open>BuildFreelist\<close>: the invariant at the loop's exit, the cache
  filled from object 0, and the other fields of the span as they were.\<close>

definition built ::
  "config \<Rightarrow> Span \<Rightarrow> nat \<Rightarrow> nat \<Rightarrow> memory \<Rightarrow> Span \<Rightarrow> memory \<Rightarrow> (nat \<times> nat list) list \<Rightarrow> bool" where
  "built c s sz cnt mem0 s' mem' ns \<longleftrightarrow>
     (\<exists>a' host'. build_inv c s sz cnt mem0 a' a' host' (embed_count s') (freelist s') mem' ns) \<and>
     s' = s\<lparr>allocated := 0, freelist := freelist s', embed_count := embed_count s',
            cache := cache s', cache_size := cached_count cnt\<rparr> \<and>
     length (cache s') = kCacheSize \<and>
     take (cached_count cnt) (cache s') = map (\<lambda>j. j * idx_step c sz) [0..<cached_count cnt]"

text \<open>The nodes of a chain by index: each object number times the index step.\<close>

definition scale_nodes :: "nat \<Rightarrow> (nat \<times> nat list) list \<Rightarrow> (nat \<times> nat list) list" where
  "scale_nodes st ns = map (\<lambda>(n, ms). (n * st, map (\<lambda>m. m * st) ms)) ns"

section \<open>The representation of a free list that is being popped\<close>

text \<open>The addressing mode that \<^verbatim>\<open>FreelistPopBatch\<close> selects for an object size.\<close>

definition mode_align :: "config \<Rightarrow> nat \<Rightarrow> Align" where
  "mode_align c sz = (if sz \<le> kMultiPageSize c then SMALL else LARGE)"

text \<open>
  The order in which objects leave a span, by object number: the cache from its
  last entry down, then for each node of the chain its embedded entries from the
  last down and the node itself.
\<close>

definition pop_seq :: "nat list \<Rightarrow> (nat \<times> nat list) list \<Rightarrow> nat list" where
  "pop_seq cs ns = rev cs @ concat (map (\<lambda>(n, ms). rev ms @ [n]) ns)"

text \<open>
  A span \<open>t\<close> and a memory represent the cached object numbers \<open>cs\<close> and the chain
  \<open>ns\<close> of the span \<open>s\<close> that was built with \<open>cnt\<close> objects.
\<close>

definition pop_state ::
  "config \<Rightarrow> Span \<Rightarrow> nat \<Rightarrow> nat \<Rightarrow> memory \<Rightarrow> Span \<Rightarrow> nat list \<Rightarrow> (nat \<times> nat list) list \<Rightarrow> bool" where
  "pop_state c s sz cnt mem t cs ns \<longleftrightarrow>
     first_page t = first_page s \<and> cache_size t = length cs \<and>
     length cs \<le> length (cache t) \<and>
     take (length cs) (cache t) = map (\<lambda>k. k * idx_step c sz) cs \<and>
     (\<forall>k \<in> set cs. k < cnt) \<and>
     chain_at c s sz mem (freelist t) (embed_count t) ns \<and>
     (\<forall>(n, ms) \<in> set ns. n < cnt \<and> 2 * length ms < sz \<and> (\<forall>m \<in> set ms. m < cnt))"

section \<open>Concrete constants and states for the instances below\<close>

text \<open>
  The constants of the default build (8 KiB pages, alignment 8, multi-page
  threshold 512 with alignment 64, sentinel \<open>2 ^ 16 - 1\<close>), in a debug build and in a
  production build, and a one-page span at page 5 whose fields hold stale values.
\<close>

definition debug_config :: config where
  "debug_config = \<lparr>debug_build = True, kPageShift = 13, kAlignmentShift = 3,
     kMultiPageSize = 512, kMultiPageAlignmentShift = 6, kListEnd = 65535\<rparr>"

definition production_config :: config where
  "production_config = \<lparr>debug_build = False, kPageShift = 13, kAlignmentShift = 3,
     kMultiPageSize = 512, kMultiPageAlignmentShift = 6, kListEnd = 65535\<rparr>"

definition stale_span :: Span where
  "stale_span = \<lparr>first_page = 5, num_pages = 1, allocated = 7, freelist = 3, embed_count = 2,
     cache = [9, 9, 9, 9], cache_size = 1, sampled = False, sampled_stack = 0,
     freelist_added_time = 0\<rparr>"

text \<open>A state with one span at address 64 and stack records that are their own byte
  estimate.\<close>

definition idle_world :: "nat world" where
  "idle_world = \<lparr>span_heap = (\<lambda>a. stale_span), stack_heap = (\<lambda>a. a),
     sampled_objects = [], sampled_objects_size = 0\<rparr>"

definition bytes_of_record :: "nat \<Rightarrow> bool \<Rightarrow> nat" where
  "bytes_of_record t unsample = t"

text \<open>A page map that knows page 5 only, of class 2, and a size map whose class 2 has
  objects of 16 bytes.\<close>

definition one_class :: "nat \<Rightarrow> nat" where
  "one_class p = (if p = 5 then 2 else 0)"

definition sizes :: "nat \<Rightarrow> nat" where
  "sizes cl = (if cl = 2 then 16 else 0)"

section \<open>Sampling\<close>

lemma LossyAdd_cancel:
  assumes "signed_take_bit 63 cnt = cnt"
  shows "LossyAdd (LossyAdd cnt (to_Value n)) (neg_Value (to_Value n)) = cnt"
proof -
  let ?v = "signed_take_bit 63 (int n)"
  have "signed_take_bit 63 (signed_take_bit 63 (cnt + ?v) + signed_take_bit 63 (- ?v))
      = signed_take_bit (63::nat) ((cnt + ?v) + (- ?v))"
    by (rule signed_take_bit_add)
  also have "\<dots> = cnt" using assms by simp
  finally show ?thesis by (simp add: LossyAdd_def to_Value_def neg_Value_def)
qed

text \<open>
  C7. On a span that is not sampled, \<^verbatim>\<open>Unsample\<close> returns the null pointer and the
  whole state (every span, the list of sampled spans and the byte counter) is the
  state it was called in.
\<close>

theorem Unsample_not_sampled:
  assumes "\<not> sampled (span_heap w this)"
  shows "Unsample AllocatedBytes this w = Inr (0, w)"
  using assms by (simp add: Unsample_def)

theorem Unsample_not_sampled_witness:
  "\<not> sampled (span_heap idle_world 64) \<and>
   Unsample bytes_of_record 64 idle_world = Inr (0, idle_world)"
  using Unsample_not_sampled [of idle_world 64 bytes_of_record]
  by (simp add: idle_world_def stale_span_def)

text \<open>
  C6. On a span that is not sampled, \<^verbatim>\<open>Sample\<close> with a non-null stack record followed
  by \<^verbatim>\<open>Unsample\<close> returns the same record, leaves the span unsampled with a null
  stored record, and restores the list and the byte counter (a 64-bit value before
  \<^verbatim>\<open>Sample\<close>): \<^verbatim>\<open>Sample\<close> adds the estimate \<open>AllocatedBytes\<close> of the record and
  \<^verbatim>\<open>Unsample\<close> adds its negation. No other thread runs between the two calls.
\<close>

theorem Sample_then_Unsample:
  assumes ns: "\<not> sampled (span_heap w this)" and st: "stack \<noteq> 0"
    and rng: "signed_take_bit 63 (sampled_objects_size w) = sampled_objects_size w"
  shows "\<exists>w1 w2. Sample c AllocatedBytes this stack w = Inr w1 \<and>
           Unsample AllocatedBytes this w1 = Inr (stack, w2) \<and>
           \<not> sampled (span_heap w2 this) \<and> sampled_stack (span_heap w2 this) = 0 \<and>
           sampled_objects w2 = sampled_objects w \<and>
           sampled_objects_size w2 = sampled_objects_size w \<and>
           sampled_objects_size w1 =
             LossyAdd (sampled_objects_size w)
               (to_Value (AllocatedBytes (stack_heap w stack) True)) \<and>
           sampled_objects_size w2 =
             LossyAdd (sampled_objects_size w1)
               (neg_Value (to_Value (AllocatedBytes (stack_heap w stack) True)))"
  using ns st LossyAdd_cancel[OF rng]
  by (simp add: Sample_def Unsample_def Let_def prepend_def RemoveFromList_def)

theorem Sample_then_Unsample_witness:
  "\<not> sampled (span_heap idle_world 64) \<and> (4096::nat) \<noteq> 0 \<and>
   signed_take_bit 63 (sampled_objects_size idle_world) = sampled_objects_size idle_world \<and>
   (\<exists>w1 w2. Sample debug_config bytes_of_record 64 4096 idle_world = Inr w1 \<and>
      Unsample bytes_of_record 64 w1 = Inr (4096, w2) \<and>
      \<not> sampled (span_heap w2 64) \<and> sampled_stack (span_heap w2 64) = 0 \<and>
      sampled_objects w2 = [] \<and> sampled_objects_size w2 = 0 \<and>
      sampled_objects_size w1 = 4096)"
proof -
  have a: "\<not> sampled (span_heap idle_world 64)" and b: "(4096::nat) \<noteq> 0"
    and r: "signed_take_bit 63 (sampled_objects_size idle_world) = sampled_objects_size idle_world"
    by (simp_all add: idle_world_def stale_span_def)
  have v: "LossyAdd 0 (to_Value 4096) = 4096"
    by (simp add: LossyAdd_def to_Value_def signed_take_bit_eq_take_bit_minus take_bit_eq_mod bit_iff_odd)
  from Sample_then_Unsample [OF a b r, of debug_config bytes_of_record]
  show ?thesis using a b r v
    by (auto simp: idle_world_def bytes_of_record_def)
qed

section \<open>Index and address conversion: round trip\<close>

lemma and_pow2_minus1: "(p::nat) AND (2 ^ n - 1) = p mod 2 ^ n"
  by (metis mask_eq_exp_minus_1 take_bit_eq_mask take_bit_eq_mod)

lemma div_pow2_less:
  assumes "(x::nat) < 2 ^ n" and "m \<le> n"
  shows "x div 2 ^ m < 2 ^ n div 2 ^ m"
proof -
  have "(2::nat) ^ n = 2 ^ (n - m) * 2 ^ m" using assms(2) by (simp flip: power_add)
  then show ?thesis using assms(1)
    by (simp add: less_mult_imp_div_less)
qed

lemma PtrToIdx_small_mode:
  assumes wf: "wf_config c" and small: "sz \<le> kMultiPageSize c"
    and pg: "PageIdContaining c ptr = first_page s"
  shows "PtrToIdx c s ptr sz = Inr ((ptr AND (kPageSize c - 1)) div kAlignment c)"
proof -
  let ?off = "(ptr AND (kPageSize c - 1)) div kAlignment c"
  have "ptr AND (kPageSize c - 1) < 2 ^ kPageShift c"
    unfolding kPageSize_def and_pow2_minus1 by simp
  then have "?off < kPageSize c div kAlignment c"
    using wf unfolding kPageSize_def kAlignment_def wf_config_def
    by (intro div_pow2_less) auto
  then have lt: "?off < kListEnd c" using wf by (simp add: wf_config_def)
  then have "?off < 2 ^ 16" using wf by (simp add: wf_config_def)
  then have "u16 ?off = ?off" by (simp add: u16_def)
  with lt small pg show ?thesis
    by (simp add: PtrToIdx_def Let_def)
qed

text \<open>
  C9. For an object size at or below the multi-page threshold and a pointer in the
  span's first page, \<^verbatim>\<open>PtrToIdx\<close> returns the pointer's offset within its page (the
  address masked to the low \<^verbatim>\<open>kPageShift\<close> bits) divided by \<^verbatim>\<open>kAlignment\<close>, in a debug
  and in a production build. The result is an expression of the pointer and the
  constants alone: the span and its first page do not occur in it.
\<close>

theorem PtrToIdx_small:
  assumes "wf_config c" and "sz \<le> kMultiPageSize c"
    and "PageIdContaining c ptr = first_page s"
  shows "PtrToIdx c s ptr sz = Inr ((ptr AND (kPageSize c - 1)) div kAlignment c)"
  using assms by (rule PtrToIdx_small_mode)

lemma start_uintptr_exact:
  assumes "first_page s * kPageSize c + x < 2 ^ 64"
  shows "start_uintptr c (first_page s) = first_page s * kPageSize c"
  using assms by (simp add: start_uintptr_def u64_def kPageSize_def)

lemma IdxToPtr_addr:
  assumes v: "valid_index c s sz i"
  shows "u64 (start_uintptr c (first_page s) + u64 (i * 2 ^ mode_shift c sz))
       = first_page s * kPageSize c + i * 2 ^ mode_shift c sz"
proof -
  from v have b: "first_page s * kPageSize c + i * 2 ^ mode_shift c sz < 2 ^ 64"
    by (simp add: valid_index_def)
  then have "i * 2 ^ mode_shift c sz < 2 ^ 64" by simp
  then have "u64 (i * 2 ^ mode_shift c sz) = i * 2 ^ mode_shift c sz" by (simp add: u64_def)
  with b start_uintptr_exact[OF b] show ?thesis by (simp add: u64_def)
qed

lemma PtrToIdx_of_addr:
  assumes wf: "wf_config c" and v: "valid_index c s sz i"
  shows "PtrToIdx c s (first_page s * kPageSize c + i * 2 ^ mode_shift c sz) sz = Inr i"
proof (cases "sz \<le> kMultiPageSize c")
  case True
  let ?p = "first_page s * kPageSize c + i * 2 ^ mode_shift c sz"
  from True have ms: "mode_shift c sz = kAlignmentShift c" by (simp add: mode_shift_def)
  from v True have inpage: "i * kAlignment c < kPageSize c" by (simp add: valid_index_def)
  then have pg: "PageIdContaining c ?p = first_page s"
    by (simp add: PageIdContaining_def ms kPageSize_def kAlignment_def)
  have "?p AND (kPageSize c - 1) = i * kAlignment c"
    using inpage unfolding kPageSize_def and_pow2_minus1 by (simp add: ms kAlignment_def)
  then have "(?p AND (kPageSize c - 1)) div kAlignment c = i"
    by (simp add: kAlignment_def)
  with PtrToIdx_small_mode[OF wf True pg] show ?thesis by simp
next
  case False
  let ?p = "first_page s * kPageSize c + i * 2 ^ mode_shift c sz"
  from False have ms: "mode_shift c sz = kMultiPageAlignmentShift c" by (simp add: mode_shift_def)
  from v have b: "?p < 2 ^ 64" and i16: "i < 2 ^ 16" and ne: "i \<noteq> kListEnd c"
    by (simp_all add: valid_index_def)
  have st: "start_uintptr c (first_page s) = first_page s * kPageSize c"
    using start_uintptr_exact[OF b] .
  have "?p + 2 ^ 64 - start_uintptr c (first_page s) = i * 2 ^ mode_shift c sz + 2 ^ 64"
    by (simp add: st)
  moreover have "i * 2 ^ mode_shift c sz < 2 ^ 64" using b by simp
  ultimately have "u64 (?p + 2 ^ 64 - start_uintptr c (first_page s)) = i * 2 ^ mode_shift c sz"
    by (simp add: u64_def)
  then have "u64 (?p + 2 ^ 64 - start_uintptr c (first_page s)) div kMultiPageAlignment c = i"
    by (simp add: ms kMultiPageAlignment_def)
  with False i16 ne show ?thesis
    by (simp add: PtrToIdx_def Let_def u16_def)
qed

lemma IdxToPtr_valid:
  assumes wf: "wf_config c" and v: "valid_index c s sz i"
  shows "IdxToPtr c s i sz = Inr (first_page s * kPageSize c + i * 2 ^ mode_shift c sz)"
proof -
  from v have ne: "i \<noteq> kListEnd c" by (simp add: valid_index_def)
  have a: "u64 (start_uintptr c (first_page s) +
             u64 (i * 2 ^ (if sz \<le> kMultiPageSize c then kAlignmentShift c
                           else kMultiPageAlignmentShift c)))
        = first_page s * kPageSize c + i * 2 ^ mode_shift c sz"
    using IdxToPtr_addr[OF v] by (simp add: mode_shift_def)
  show ?thesis
    unfolding IdxToPtr_def Let_def a
    using ne PtrToIdx_of_addr[OF wf v] by simp
qed

text \<open>
  C1. For every valid index of a span, in the small-object mode and in the
  multi-page mode, \<^verbatim>\<open>IdxToPtr\<close> returns a pointer and \<^verbatim>\<open>PtrToIdx\<close> of that pointer
  returns the index: converting an index to a pointer and back is the identity.
\<close>

theorem IdxToPtr_PtrToIdx_roundtrip: 
  assumes wf: "wf_config c" and v: "valid_index c s sz i"
  shows "\<exists>p. IdxToPtr c s i sz = Inr p \<and> PtrToIdx c s p sz = Inr i"
  using IdxToPtr_valid[OF wf v] PtrToIdx_of_addr[OF wf v] by simp


lemma wf_debug_config: "wf_config debug_config"
  by (simp add: wf_config_def debug_config_def kPageSize_def kAlignment_def)

lemma wf_production_config: "wf_config production_config"
  by (simp add: wf_config_def production_config_def kPageSize_def kAlignment_def)

theorem PtrToIdx_small_witness:
  "wf_config debug_config \<and> 16 \<le> kMultiPageSize debug_config \<and>
   PageIdContaining debug_config 40984 = first_page stale_span \<and>
   PtrToIdx debug_config stale_span 40984 16 = Inr 3"
proof -
  have a: "(16::nat) \<le> kMultiPageSize debug_config" by (simp add: debug_config_def)
  have b: "PageIdContaining debug_config 40984 = first_page stale_span"
    by (simp add: PageIdContaining_def debug_config_def stale_span_def)
  have "(40984::nat) AND (kPageSize debug_config - 1) = 24"
    by (simp add: kPageSize_def debug_config_def)
  then have "((40984::nat) AND (kPageSize debug_config - 1)) div kAlignment debug_config = 3"
    by (simp add: kAlignment_def debug_config_def)
  with PtrToIdx_small [OF wf_debug_config a b] wf_debug_config a b show ?thesis by simp
qed

theorem IdxToPtr_PtrToIdx_roundtrip_witness:
  "wf_config debug_config \<and> valid_index debug_config stale_span 16 8 \<and>
   IdxToPtr debug_config stale_span 8 16 = Inr 41024 \<and>
   PtrToIdx debug_config stale_span 41024 16 = Inr 8 \<and>
   valid_index debug_config stale_span 1024 32 \<and>
   IdxToPtr debug_config stale_span 32 1024 = Inr 43008 \<and>
   PtrToIdx debug_config stale_span 43008 1024 = Inr 32"
proof -
  have v1: "valid_index debug_config stale_span 16 8"
    by (simp add: valid_index_def debug_config_def stale_span_def mode_shift_def kPageSize_def
        kAlignment_def)
  have v2: "valid_index debug_config stale_span 1024 32"
    by (simp add: valid_index_def debug_config_def stale_span_def mode_shift_def kPageSize_def
        kAlignment_def)
  have p1: "IdxToPtr debug_config stale_span 8 16 = Inr 41024"
    using IdxToPtr_valid [OF wf_debug_config v1]
    by (simp add: debug_config_def stale_span_def mode_shift_def kPageSize_def)
  have p2: "IdxToPtr debug_config stale_span 32 1024 = Inr 43008"
    using IdxToPtr_valid [OF wf_debug_config v2]
    by (simp add: debug_config_def stale_span_def mode_shift_def kPageSize_def)
  from IdxToPtr_PtrToIdx_roundtrip [OF wf_debug_config v1]
    IdxToPtr_PtrToIdx_roundtrip [OF wf_debug_config v2]
  show ?thesis using wf_debug_config v1 v2 p1 p2 by auto
qed

section \<open>Fragmentation and the averaged timestamp: results\<close>

lemma rd_nat:
  assumes "exact_on_small_nats rd" and "n \<le> 2 ^ 53"
  shows "rd (real n) = real n"
  using assms by (simp add: exact_on_small_nats_def)

lemma rd_quotient_floor:
  assumes ex: "exact_on_small_nats rd" and re: "relative_error_bounded rd"
    and D: "0 < D" and D53: "D \<le> 2 ^ 53" and N: "N < 2 ^ 53"
  shows "real (N div D) \<le> rd (real N / real D) \<and> rd (real N / real D) < real (N div D) + 1"
proof (cases "N mod D = 0")
  case True
  then have "real N / real D = real (N div D)"
    by (simp add: real_of_nat_div dvd_eq_mod_eq_0)
  moreover have "N div D \<le> 2 ^ 53"
    using N by (meson div_le_dividend le_trans less_imp_le_nat)
  ultimately show ?thesis using rd_nat[OF ex] by simp
next
  case False
  let ?x = "real N / real D"
  let ?k = "N div D"
  let ?r = "N mod D"
  have Dr: "0 < real D" using D by simp
  have r1: "1 \<le> ?r" using False by simp
  have rD: "?r < D" using D by simp
  have N1: "1 \<le> N" using False by (cases N) auto
  have decomp: "real N = real ?k * real D + real ?r"
    by (metis div_mult_mod_eq of_nat_add of_nat_mult)
  have xk: "?x = real ?k + real ?r / real D"
    using Dr by (simp add: decomp add_divide_distrib)
  have lo: "1 / real D \<le> ?x - real ?k"
    using xk r1 Dr by (simp add: divide_right_mono)
  have "real ?r \<le> real D - 1" using rD by linarith
  then have "real ?r / real D \<le> (real D - 1) / real D"
    using Dr by (simp add: divide_right_mono)
  also have "\<dots> = 1 - 1 / real D" using Dr by (simp add: diff_divide_distrib)
  finally have hi: "1 / real D \<le> real ?k + 1 - ?x" using xk by simp
  have "real N < 2 ^ 53" using N by (metis of_nat_less_iff of_nat_numeral of_nat_power)
  then have "real N / 2 ^ 53 < 1" by simp
  then have "(real N / 2 ^ 53) / real D < 1 / real D"
    using Dr by (rule divide_strict_right_mono)
  moreover have "(real N / 2 ^ 53) / real D = ?x / 2 ^ 53" by simp
  ultimately have e: "?x / 2 ^ 53 < 1 / real D" by simp
  have xpos: "1 / real D \<le> ?x" using N1 Dr by (simp add: divide_right_mono)
  have Dle: "real D \<le> 2 ^ 1022"
  proof -
    have "real D \<le> 2 ^ 53" using D53 by (metis of_nat_le_iff of_nat_numeral of_nat_power)
    also have "(2::real) ^ 53 \<le> 2 ^ 1022" by (rule power_increasing) simp_all
    finally show ?thesis .
  qed
  have x_lo: "1 / 2 ^ 1022 \<le> ?x"
  proof -
    have "1 / 2 ^ 1022 \<le> 1 / real D" using Dle Dr by (simp add: frac_le)
    with xpos show ?thesis by linarith
  qed
  have x_hi: "?x \<le> 2 ^ 1023"
  proof -
    have "?x \<le> real N" using Dr D by (simp add: divide_le_eq mult_le_cancel_left1)
    also have "\<dots> \<le> 2 ^ 53" using \<open>real N < 2 ^ 53\<close> by simp
    also have "(2::real) ^ 53 \<le> 2 ^ 1023" by (rule power_increasing) simp_all
    finally show ?thesis .
  qed
  from re x_lo x_hi have "\<bar>rd ?x - ?x\<bar> \<le> ?x / 2 ^ 53"
    unfolding relative_error_bounded_def by blast
  with e have "\<bar>rd ?x - ?x\<bar> < 1 / real D" by linarith
  with lo hi show ?thesis by linarith
qed

lemma double_to_uint64_quotient:
  assumes ex: "exact_on_small_nats rd" and re: "relative_error_bounded rd"
    and D: "0 < D" and D53: "D \<le> 2 ^ 53" and N: "N < 2 ^ 53"
  shows "nat \<lfloor>rd (real N / real D)\<rfloor> = N div D"
    and "0 \<le> rd (real N / real D)" and "rd (real N / real D) < 2 ^ 64"
proof -
  let ?q = "rd (real N / real D)"
  from rd_quotient_floor[OF ex re D D53 N]
  have lo: "real (N div D) \<le> ?q" and hi: "?q < real (N div D) + 1" by simp_all
  have "\<lfloor>?q\<rfloor> = int (N div D)"
    using lo hi by (intro floor_unique) simp_all
  then show "nat \<lfloor>?q\<rfloor> = N div D" by simp
  show "0 \<le> ?q" using lo by (meson of_nat_0_le_iff order_trans)
  have "N div D < 2 ^ 53" using N by (meson div_le_dividend le_less_trans)
  then have "real (N div D) + 1 \<le> 2 ^ 53"
    by (metis Suc_leI of_nat_Suc of_nat_le_iff of_nat_numeral of_nat_power add.commute)
  also have "(2::real) ^ 53 \<le> 2 ^ 64" by (rule power_increasing) simp_all
  finally show "?q < 2 ^ 64" using hi by linarith
qed


lemma round_half_even_error: "\<bar>of_int (round_half_even y) - y\<bar> \<le> 1 / 2"
proof -
  have "of_int \<lfloor>y\<rfloor> \<le> y" "y < of_int \<lfloor>y\<rfloor> + 1" by linarith+
  then show ?thesis by (auto simp: round_half_even_def Let_def)
qed

lemma round_half_even_int: "round_half_even (of_int k) = k"
  by (simp add: round_half_even_def)

lemma double_round_pos:
  assumes "0 < x"
  shows "double_round x =
           of_int (round_half_even (x / 2 powr of_int (\<lfloor>log 2 x\<rfloor> - 52)))
             * 2 powr of_int (\<lfloor>log 2 x\<rfloor> - 52)"
  using assms by (simp add: double_round_def Let_def)

lemma double_round_exact:
  assumes x: "0 < x" and z: "x / 2 powr of_int (\<lfloor>log 2 x\<rfloor> - 52) = of_int z"
  shows "double_round x = x"
proof -
  let ?p = "2 powr of_int (\<lfloor>log 2 x\<rfloor> - 52) :: real"
  have p: "0 < ?p" by simp
  have "double_round x = of_int (round_half_even (of_int z)) * ?p"
    unfolding double_round_pos[OF x] z ..
  also have "\<dots> = (x / ?p) * ?p" by (simp only: round_half_even_int z)
  also have "\<dots> = x" using p by simp
  finally show ?thesis .
qed

lemma double_round_relative_error: "relative_error_bounded double_round"
  unfolding relative_error_bounded_def
proof (intro allI impI)
  fix x :: real assume r: "1 / 2 ^ 1022 \<le> x \<and> x \<le> 2 ^ 1023"
  have "(0::real) < 1 / 2 ^ 1022" by simp
  with r have x: "0 < x" by linarith
  let ?E = "\<lfloor>log 2 x\<rfloor>"
  let ?p = "2 powr of_int (?E - 52) :: real"
  let ?m = "round_half_even (x / ?p)"
  have p: "0 < ?p" by simp
  have "2 powr of_int ?E \<le> x"
    using floor_log_eq_powr_iff[of x 2 ?E] x by simp
  moreover have "?p = 2 powr of_int ?E / 2 ^ 52"
    by (simp add: powr_diff)
  ultimately have ph: "?p / 2 \<le> x / 2 ^ 53" by simp
  have "of_int ?m * ?p - x = (of_int ?m - x / ?p) * ?p"
    using p by (simp add: left_diff_distrib)
  then have "\<bar>double_round x - x\<bar> = \<bar>(of_int ?m - x / ?p) * ?p\<bar>"
    unfolding double_round_pos[OF x] by (rule arg_cong)
  also have "\<dots> = \<bar>of_int ?m - x / ?p\<bar> * ?p"
    unfolding abs_mult using p by simp
  also have "\<dots> \<le> (1 / 2) * ?p"
    using round_half_even_error[of "x / ?p"] p by (intro mult_right_mono) simp_all
  finally show "\<bar>double_round x - x\<bar> \<le> x / 2 ^ 53" using ph by simp
qed

lemma double_round_nat_exact:
  assumes k: "2 ^ k \<le> n" "n < 2 ^ (k + 1)" and m: "2 ^ k dvd n * 2 ^ 52"
  shows "double_round (real n) = real n"
proof -
  have n0: "0 < real n" using k(1) by (metis of_nat_0_less_iff zero_less_power pos2 less_le_trans)
  have fl: "\<lfloor>log 2 (real n)\<rfloor> = int k"
    using floor_log_nat_eq_if[OF k] by simp
  have p: "2 powr of_int (\<lfloor>log 2 (real n)\<rfloor> - 52) = (2::real) ^ k / 2 ^ 52"
    unfolding fl by (simp add: powr_diff powr_realpow)
  from m obtain q where q: "n * 2 ^ 52 = 2 ^ k * q" by (auto simp: dvd_def)
  have "real n / ((2::real) ^ k / 2 ^ 52) = real (n * 2 ^ 52) / 2 ^ k" by simp
  also have "\<dots> = real (2 ^ k * q) / 2 ^ k" unfolding q ..
  also have "\<dots> = real q" by simp
  finally have "real n / 2 powr of_int (\<lfloor>log 2 (real n)\<rfloor> - 52) = of_int (int q)"
    unfolding p by simp
  from double_round_exact[OF n0 this] show ?thesis .
qed

lemma double_round_small_nats: "exact_on_small_nats double_round"
  unfolding exact_on_small_nats_def
proof (intro allI impI)
  fix n :: nat assume le: "n \<le> 2 ^ 53"
  show "double_round (real n) = real n"
  proof (cases "n = 0")
    case True
    then show ?thesis by (simp add: double_round_def)
  next
    case False
    then have "1 \<le> n" by simp
    from ex_power_ivl1[OF _ this, of 2] obtain k where k: "2 ^ k \<le> n" "n < 2 ^ (k + 1)"
      by auto
    from k(1) le have "(2::nat) ^ k \<le> 2 ^ 53" by (rule le_trans)
    then have k53: "k \<le> 53" by (rule power_le_imp_le_exp[rotated]) simp
    show ?thesis
    proof (cases "k \<le> 52")
      case True
      then have "(2::nat) ^ k dvd 2 ^ 52" by (rule le_imp_power_dvd)
      then have "2 ^ k dvd n * 2 ^ 52" by (rule dvd_mult)
      from double_round_nat_exact[OF k this] show ?thesis .
    next
      case False
      with k53 have k: "k = 53" by simp
      with \<open>2 ^ k \<le> n\<close> le have n: "n = 2 ^ 53" by simp
      have a: "(2::nat) ^ 53 \<le> 2 ^ 53" and b: "(2::nat) ^ 53 < 2 ^ (53 + 1)"
        and c: "(2::nat) ^ 53 dvd 2 ^ 53 * 2 ^ 52" by simp_all
      from double_round_nat_exact[OF a b c] show ?thesis unfolding n .
    qed
  qed
qed

lemma double_round_tie: "double_round 9007199254740993 = 9007199254740992"
proof -
  have k: "(2::nat) ^ 53 \<le> 9007199254740993" "(9007199254740993::nat) < 2 ^ (53 + 1)" by simp_all
  have fl': "\<lfloor>log 2 (9007199254740993::real)\<rfloor> = 53"
    using floor_log_nat_eq_if[OF k] by simp
  have p: "2 powr of_int (53 - 52) = (2::real)" by simp
  have y: "(9007199254740993::real) / 2 = 4503599627370496 + 1 / 2" by simp
  have "\<lfloor>(4503599627370496::real) + 1 / 2\<rfloor> = 4503599627370496" by linarith
  then have rh: "round_half_even ((4503599627370496::real) + 1 / 2) = 4503599627370496"
    by (simp add: round_half_even_def Let_def)
  have "double_round 9007199254740993
          = of_int (round_half_even (9007199254740993 / 2)) * 2"
    using double_round_pos[of 9007199254740993] unfolding fl' p by simp
  also have "\<dots> = 9007199254740992" unfolding y rh by simp
  finally show ?thesis .
qed

lemma double_round_pow54: "double_round 18014398509481984 = 18014398509481984"
proof -
  have k: "(2::nat) ^ 54 \<le> 18014398509481984" "(18014398509481984::nat) < 2 ^ (54 + 1)"
    and d: "(2::nat) ^ 54 dvd 18014398509481984 * 2 ^ 52" by simp_all
  from double_round_nat_exact[OF k d] show ?thesis by simp
qed

lemma real_le_pow53: "n \<le> 2 ^ 53 \<Longrightarrow> real n \<le> 2 ^ 53"
  by (metis of_nat_le_iff of_nat_numeral of_nat_power)

text \<open>
  C8 (amended). For every rounding of doubles that is exact on the natural numbers
  up to \<open>2 ^ 53\<close> and has the relative error of binary64, and every pair of spans
  with positive page counts (together at most \<open>2 ^ 53\<close> pages) whose weighted sum of
  timestamps \<open>t_self * pages_self + t_other * pages_other\<close> is below \<open>2 ^ 53\<close>,
  \<^verbatim>\<open>AverageFreelistAddedTime\<close> sets this span's timestamp to the page-count-weighted
  average \<open>(t_self * pages_self + t_other * pages_other) div (pages_self + pages_other)\<close>,
  the quotient truncated to an integer, and changes nothing else; merging a span
  with timestamp 100 and 1 page into one with timestamp 300 and 3 pages yields 250.
\<close>

theorem AverageFreelistAddedTime_weighted:
  assumes ex: "exact_on_small_nats rd" and re: "relative_error_bounded rd"
    and ps: "0 < num_pages s" and po: "0 < num_pages other"
    and pages: "num_pages s + num_pages other \<le> 2 ^ 53"
    and small: "freelist_added_time s * num_pages s
                 + freelist_added_time other * num_pages other < 2 ^ 53"
  shows "AverageFreelistAddedTime rd s other =
           Inr (s\<lparr>freelist_added_time :=
                  (freelist_added_time s * num_pages s
                     + freelist_added_time other * num_pages other)
                   div (num_pages s + num_pages other)\<rparr>)"
proof -
  let ?ts = "freelist_added_time s" and ?to = "freelist_added_time other"
  let ?ps = "num_pages s" and ?po = "num_pages other"
  let ?N = "?ts * ?ps + ?to * ?po" and ?D = "?ps + ?po"
  have N53: "?N \<le> 2 ^ 53" using small by simp
  have "?ts \<le> ?ts * ?ps" using ps by simp
  then have ts: "?ts \<le> 2 ^ 53" using N53 by linarith
  have "?to \<le> ?to * ?po" using po by simp
  then have to: "?to \<le> 2 ^ 53" using N53 by linarith
  have psb: "?ps \<le> 2 ^ 53" and pob: "?po \<le> 2 ^ 53" using pages by simp_all
  have tps: "?ts * ?ps \<le> 2 ^ 53" and tpo: "?to * ?po \<le> 2 ^ 53" using N53 by simp_all
  have m1: "rd (rd (real ?ts) * rd (real ?ps)) = real (?ts * ?ps)"
    using rd_nat[OF ex ts] rd_nat[OF ex psb] rd_nat[OF ex tps] by simp
  have m2: "rd (rd (real ?to) * rd (real ?po)) = real (?to * ?po)"
    using rd_nat[OF ex to] rd_nat[OF ex pob] rd_nat[OF ex tpo] by simp
  have num: "rd (rd (rd (real ?ts) * rd (real ?ps)) + rd (rd (real ?to) * rd (real ?po)))
               = real ?N"
    using rd_nat[OF ex N53] by (simp only: m1 m2 flip: of_nat_add)
  have "?D < 2 ^ 64"
  proof -
    have "?D \<le> 2 ^ 53" by (rule pages)
    also have "(2::nat) ^ 53 < 2 ^ 64" by simp
    finally show ?thesis .
  qed
  then have den: "u64 ?D = ?D" by (simp add: u64_def)
  have D0: "0 < ?D" using ps by simp
  have rden: "rd (real ?D) = real ?D" by (rule rd_nat[OF ex pages])
  note q = double_to_uint64_quotient[OF ex re D0 pages small]
  have q2: "\<not> (rd (real ?N / real ?D) < 0 \<or> 2 ^ 64 \<le> rd (real ?N / real ?D))"
    using q(2,3) by linarith
  show ?thesis
    unfolding AverageFreelistAddedTime_def Let_def num den rden
    using D0 q(1) q2 by simp
qed

theorem AverageFreelistAddedTime_weighted_witness:
  "exact_on_small_nats double_round \<and> relative_error_bounded double_round \<and>
   AverageFreelistAddedTime double_round
     (stale_span\<lparr>num_pages := 3, freelist_added_time := 300\<rparr>)
     (stale_span\<lparr>num_pages := 1, freelist_added_time := 100\<rparr>)
   = Inr (stale_span\<lparr>num_pages := 3, freelist_added_time := 250\<rparr>)"
  using AverageFreelistAddedTime_weighted [OF double_round_small_nats double_round_relative_error,
      of "stale_span\<lparr>num_pages := 3, freelist_added_time := 300\<rparr>"
         "stale_span\<lparr>num_pages := 1, freelist_added_time := 100\<rparr>"]
    double_round_small_nats double_round_relative_error
  by simp

text \<open>
  The claim C8 as it was stated, for every pair of spans, fails where a timestamp
  is not a double: two spans of one page with timestamp \<open>2 ^ 53 + 1\<close> have the
  weighted average \<open>2 ^ 53 + 1\<close>, and \<^verbatim>\<open>AverageFreelistAddedTime\<close> stores \<open>2 ^ 53\<close>.
\<close>

theorem AverageFreelistAddedTime_weighted_counterexample:
  "AverageFreelistAddedTime double_round
     (stale_span\<lparr>num_pages := 1, freelist_added_time := 9007199254740993\<rparr>)
     (stale_span\<lparr>num_pages := 1, freelist_added_time := 9007199254740993\<rparr>)
   = Inr (stale_span\<lparr>num_pages := 1, freelist_added_time := 9007199254740992\<rparr>) \<and>
   (9007199254740993 * 1 + 9007199254740993 * 1) div (1 + 1) = (9007199254740993::nat)"
proof -
  note ex = double_round_small_nats
  have one: "double_round 1 = 1" using rd_nat[OF ex, of 1] by simp
  have two: "double_round 2 = 2" using rd_nat[OF ex, of 2] by simp
  have p53: "double_round 9007199254740992 = 9007199254740992"
    using rd_nat[OF ex, of 9007199254740992] by simp
  have fl: "\<lfloor>9007199254740992::real\<rfloor> = 9007199254740992"
    by (metis floor_numeral)
  have r: "AverageFreelistAddedTime double_round
     (stale_span\<lparr>num_pages := 1, freelist_added_time := 9007199254740993\<rparr>)
     (stale_span\<lparr>num_pages := 1, freelist_added_time := 9007199254740993\<rparr>)
   = Inr (stale_span\<lparr>num_pages := 1, freelist_added_time := 9007199254740992\<rparr>)"
    by (simp add: AverageFreelistAddedTime_def Let_def u64_def double_round_tie one two p53
        double_round_pow54 fl)
  have av: "(9007199254740993 * 1 + 9007199254740993 * 1) div (1 + 1) = (9007199254740993::nat)"
    unfolding one_add_one by simp
  from r av show ?thesis by (rule conjI)
qed

lemma u64_sub:
  assumes "b \<le> a" and "a < 2 ^ 64"
  shows "u64 (a + 2 ^ 64 - b) = a - b"
proof -
  have "a + 2 ^ 64 - b = (a - b) + 2 ^ 64" using assms(1) by simp
  then have "u64 (a + 2 ^ 64 - b) = (a - b) mod 2 ^ 64"
    unfolding u64_def by (simp only: mod_add_self2)
  also have "\<dots> = a - b" using assms(2) by simp
  finally show ?thesis .
qed

lemma Fragmentation_live:
  assumes ex: "exact_on_small_nats rd"
    and cl: "sizeclass (first_page s) \<noteq> 0"
    and os: "0 < class_to_size (sizeclass (first_page s))"
    and L: "0 < allocated s" 
    and LC: "allocated s \<le> span_capacity c sizeclass class_to_size s"
    and C53: "span_capacity c sizeclass class_to_size s \<le> 2 ^ 53"
  shows "Fragmentation rd c sizeclass class_to_size s =
           Inr (rd (real (span_capacity c sizeclass class_to_size s - allocated s)
                    / real (allocated s)))"
proof -
  let ?C = "span_capacity c sizeclass class_to_size s" and ?L = "allocated s"
  have "?C < 2 ^ 64"
  proof -
    have "?C \<le> 2 ^ 53" by (rule C53)
    also have "(2::nat) ^ 53 < 2 ^ 64" by simp
    finally show ?thesis .
  qed
  then have sub: "u64 (?C + 2 ^ 64 - ?L) = ?C - ?L" using LC by (intro u64_sub)
  have d: "rd (real (?C - ?L)) = real (?C - ?L)" using C53 by (intro rd_nat[OF ex]) simp
  have l: "rd (real ?L) = real ?L" using C53 LC by (intro rd_nat[OF ex]) simp
  show ?thesis
    using cl os L sub d l
    by (simp add: Fragmentation_def Let_def span_capacity_def)
qed

text \<open>
  C5. With \<open>C\<close> the object capacity of the span (at most \<open>2 ^ 53\<close>) and \<open>L\<close> its
  \<^verbatim>\<open>allocated_\<close> count: if the span has a size class and \<open>0 < L \<le> C\<close> then
  \<^verbatim>\<open>Fragmentation\<close> returns the double quotient of \<open>C - L\<close> by \<open>L\<close>, which is 0 when
  \<open>L = C\<close>; if \<open>L = 0\<close> or the size class of the span's first page is 0, a production
  build returns 0.
\<close>

theorem Fragmentation_value:
  assumes ex: "exact_on_small_nats rd"
    and os: "sizeclass (first_page s) = 0 \<or> 0 < class_to_size (sizeclass (first_page s))"
    and C: "C = span_capacity c sizeclass class_to_size s" and C53: "C \<le> 2 ^ 53"
    and L: "L = allocated s"
  shows "(sizeclass (first_page s) \<noteq> 0 \<and> 0 < L \<and> L \<le> C \<longrightarrow>
            Fragmentation rd c sizeclass class_to_size s = Inr (rd (real (C - L) / real L))) \<and>
         (sizeclass (first_page s) \<noteq> 0 \<and> 0 < L \<and> L = C \<longrightarrow>
            Fragmentation rd c sizeclass class_to_size s = Inr 0) \<and>
         (\<not> debug_build c \<and> (L = 0 \<or> sizeclass (first_page s) = 0) \<longrightarrow>
            Fragmentation rd c sizeclass class_to_size s = Inr 0)"
proof (intro conjI impI)
  assume a: "sizeclass (first_page s) \<noteq> 0 \<and> 0 < L \<and> L \<le> C"
  with os have p: "0 < class_to_size (sizeclass (first_page s))" by simp
  from a have q: "sizeclass (first_page s) \<noteq> 0" by simp
  from Fragmentation_live[where rd = rd and c = c and sizeclass = sizeclass
      and class_to_size = class_to_size and s = s, OF ex q p] a C C53 L
  show "Fragmentation rd c sizeclass class_to_size s = Inr (rd (real (C - L) / real L))"
    by simp
next
  assume a: "sizeclass (first_page s) \<noteq> 0 \<and> 0 < L \<and> L = C"
  with os have p: "0 < class_to_size (sizeclass (first_page s))" by simp
  from a have q: "sizeclass (first_page s) \<noteq> 0" by simp
  from Fragmentation_live[where rd = rd and c = c and sizeclass = sizeclass
      and class_to_size = class_to_size and s = s, OF ex q p] a C C53 L
  have "Fragmentation rd c sizeclass class_to_size s = Inr (rd (real (C - L) / real L))"
    by simp
  moreover have "rd 0 = 0" using rd_nat[OF ex, of 0] by simp
  ultimately show "Fragmentation rd c sizeclass class_to_size s = Inr 0" using a by simp
next
  assume a: "\<not> debug_build c \<and> (L = 0 \<or> sizeclass (first_page s) = 0)"
  show "Fragmentation rd c sizeclass class_to_size s = Inr 0"
  proof (cases "sizeclass (first_page s) = 0")
    case True
    with a show ?thesis by (simp add: Fragmentation_def)
  next
    case False
    with a os L show ?thesis by (simp add: Fragmentation_def Let_def)
  qed
qed



theorem Fragmentation_value_witness:
  "exact_on_small_nats double_round \<and>
   span_capacity production_config one_class sizes stale_span = 512 \<and>
   Fragmentation double_round production_config one_class sizes (stale_span\<lparr>allocated := 128\<rparr>)
     = Inr 3 \<and>
   Fragmentation double_round production_config one_class sizes (stale_span\<lparr>allocated := 512\<rparr>)
     = Inr 0 \<and>
   Fragmentation double_round production_config one_class sizes (stale_span\<lparr>allocated := 0\<rparr>)
     = Inr 0 \<and>
   Fragmentation double_round production_config one_class sizes
     (stale_span\<lparr>first_page := 6, allocated := 128\<rparr>) = Inr 0"
proof -
  note ex = double_round_small_nats
  have cap: "span_capacity production_config one_class sizes (stale_span\<lparr>allocated := a\<rparr>) = 512"
    for a
    by (simp add: span_capacity_def bytes_in_span_def u64_def production_config_def one_class_def
        sizes_def stale_span_def)
  have cap6: "span_capacity production_config one_class sizes
      (stale_span\<lparr>first_page := 6, allocated := 128\<rparr>) = 0"
    by (simp add: span_capacity_def bytes_in_span_def u64_def production_config_def one_class_def
        sizes_def stale_span_def)
  have cap0: "span_capacity production_config one_class sizes stale_span = 512"
    by (simp add: span_capacity_def bytes_in_span_def u64_def production_config_def one_class_def
        sizes_def stale_span_def)
  have p: "\<not> debug_build production_config" by (simp add: production_config_def)
  have f: "first_page stale_span = 5" by (simp add: stale_span_def)
  have three: "double_round 3 = 3" using rd_nat[OF ex, of 3] by simp
  have zero: "double_round 0 = 0" using rd_nat[OF ex, of 0] by simp
  from Fragmentation_value [OF ex, of one_class "stale_span\<lparr>allocated := 128\<rparr>"
      sizes 512 production_config 128]
  have 1: "Fragmentation double_round production_config one_class sizes
      (stale_span\<lparr>allocated := 128\<rparr>) = Inr 3"
    using cap f three by (simp add: one_class_def sizes_def)
  from Fragmentation_value [OF ex, of one_class "stale_span\<lparr>allocated := 512\<rparr>"
      sizes 512 production_config 512]
  have 2: "Fragmentation double_round production_config one_class sizes
      (stale_span\<lparr>allocated := 512\<rparr>) = Inr 0"
    using cap f zero by (simp add: one_class_def sizes_def)
  from Fragmentation_value [OF ex, of one_class "stale_span\<lparr>allocated := 0\<rparr>"
      sizes 512 production_config 0]
  have 3: "Fragmentation double_round production_config one_class sizes
      (stale_span\<lparr>allocated := 0\<rparr>) = Inr 0"
    using cap f p by (simp add: one_class_def sizes_def)
  from Fragmentation_value [OF ex, of one_class
      "stale_span\<lparr>first_page := 6, allocated := 128\<rparr>" sizes 0 production_config 128]
  have 4: "Fragmentation double_round production_config one_class sizes
      (stale_span\<lparr>first_page := 6, allocated := 128\<rparr>) = Inr 0"
    using cap6 p by (simp add: one_class_def sizes_def)
  from 1 2 3 4 cap0 ex show ?thesis by simp
qed

section \<open>Building the free list: the loop invariant\<close>

lemma legal_size:
  assumes "legal_build c s sz cnt"
  shows "sz = idx_step c sz * 2 ^ mode_shift c sz" and "0 < idx_step c sz"
    and "1 \<le> mode_shift c sz" and "even sz" and "2 \<le> sz"
proof -
  from assms have m: "sz mod 2 ^ mode_shift c sz = 0" and p: "0 < sz" and wf: "wf_config c"
    by (simp_all add: legal_build_def)
  from m show eq: "sz = idx_step c sz * 2 ^ mode_shift c sz"
    by (simp add: idx_step_def mod_eq_0_iff_dvd)
  from eq p show "0 < idx_step c sz" by (cases "idx_step c sz = 0") auto
  from wf show s1: "1 \<le> mode_shift c sz" by (auto simp: wf_config_def mode_shift_def)
  then have "(2::nat) dvd 2 ^ mode_shift c sz" by (cases "mode_shift c sz") auto
  then show ev: "even sz" using eq by (metis dvd_mult)
  then obtain k where "sz = 2 * k" by (elim evenE)
  with p show "2 \<le> sz" by arith
qed

lemma max_embed_of_eq:
  assumes "2 \<le> sz" and "sz < 2 ^ 64"
  shows "max_embed_of sz = sz div 2 - 1"
proof -
  have "1 \<le> sz div 2" using assms(1) by simp
  moreover have "sz div 2 < 2 ^ 64" using assms(2) by simp
  ultimately have "u64 (sz div 2 + 2 ^ 64 - 1) = sz div 2 - 1"
    by (intro u64_sub) 
  then show ?thesis by (simp add: max_embed_of_def sizeof_ObjIdx_def)
qed

lemma legal_index_bound:
  assumes "legal_build c s sz cnt" and "n \<le> cnt"
  shows "n * idx_step c sz < kListEnd c" and "n * idx_step c sz < 2 ^ 16"
proof -
  from assms(1) have a: "cnt * idx_step c sz < kListEnd c" and k: "kListEnd c < 2 ^ 16"
    by (simp_all add: legal_build_def wf_config_def)
  have "n * idx_step c sz \<le> cnt * idx_step c sz" using assms(2) by simp
  with a show b: "n * idx_step c sz < kListEnd c" by linarith
  from b k show "n * idx_step c sz < 2 ^ 16" by (rule less_trans)
qed

lemma legal_index_scaled:
  assumes "legal_build c s sz cnt"
  shows "n * idx_step c sz * 2 ^ mode_shift c sz = n * sz"
  using legal_size(1)[OF assms] by (metis mult.assoc)

lemma legal_valid_index:
  assumes l: "legal_build c s sz cnt" and n: "n < cnt"
  shows "valid_index c s sz (n * idx_step c sz)"
proof -
  from l have sp: "first_page s * kPageSize c + cnt * sz < 2 ^ 64"
    and pg: "kMultiPageSize c < sz \<or> cnt * sz \<le> kPageSize c"
    by (simp_all add: legal_build_def)
  have le: "n * sz < cnt * sz" using n legal_size(5)[OF l] by simp
  have sc: "n * idx_step c sz * 2 ^ mode_shift c sz = n * sz" by (rule legal_index_scaled[OF l])
  have "kMultiPageSize c < sz \<or> n * idx_step c sz * kAlignment c < kPageSize c"
  proof (cases "kMultiPageSize c < sz")
    case False
    then have "mode_shift c sz = kAlignmentShift c" by (simp add: mode_shift_def)
    with sc have "n * idx_step c sz * kAlignment c = n * sz" by (simp add: kAlignment_def)
    moreover from pg False have "cnt * sz \<le> kPageSize c" by simp
    ultimately have "n * idx_step c sz * kAlignment c < kPageSize c" using le by linarith
    then show ?thesis ..
  qed simp
  moreover have "n * idx_step c sz \<noteq> kListEnd c" "n * idx_step c sz < 2 ^ 16"
    using legal_index_bound[OF l, of n] n by simp_all
  moreover have "first_page s * kPageSize c + n * idx_step c sz * 2 ^ mode_shift c sz < 2 ^ 64"
    unfolding sc using sp le by linarith
  ultimately show ?thesis unfolding valid_index_def by blast
qed

lemma legal_IdxToPtr:
  assumes l: "legal_build c s sz cnt" and n: "n < cnt"
  shows "IdxToPtr c s (n * idx_step c sz) sz = Inr (span_base c s + n * sz)"
proof -
  from l have wf: "wf_config c" by (simp add: legal_build_def)
  show ?thesis
    using IdxToPtr_valid[OF wf legal_valid_index[OF l n]]
    unfolding legal_index_scaled[OF l] span_base_def .
qed

lemma legal_obj_addr:
  assumes l: "legal_build c s sz cnt" and n: "n < cnt"
  shows "obj_addr c s sz (n * idx_step c sz) = span_base c s + n * sz"
  using IdxToPtr_addr[OF legal_valid_index[OF l n]]
  unfolding legal_index_scaled[OF l] span_base_def obj_addr_def .

lemma legal_slot:
  assumes l: "legal_build c s sz cnt" and n: "n < cnt" and j: "2 * j < sz"
  shows "slot (span_base c s + n * sz) j = span_base c s + n * sz + 2 * j"
proof -
  from l have sp: "first_page s * kPageSize c + cnt * sz < 2 ^ 64"
    by (simp add: legal_build_def)
  note j
  moreover have "n * sz + sz \<le> cnt * sz" using n
    by (metis Suc_leI mult_Suc mult_le_mono1 add.commute)
  ultimately have "span_base c s + n * sz + 2 * j < 2 ^ 64" using sp by (simp add: span_base_def)
  then show ?thesis by (simp add: slot_def u64_def sizeof_ObjIdx_def)
qed

lemma cell_decomposition:
  assumes "2 * j < sz" and "2 * j' < sz"
    and "b + n * sz + 2 * j = b + n' * sz + 2 * j'"
  shows "n = n' \<and> j = (j'::nat)"
proof -
  from assms(3) have e: "n * sz + 2 * j = n' * sz + 2 * j'" by simp
  have "(n * sz + 2 * j) div sz = n" using assms(1) by simp
  moreover have "(n' * sz + 2 * j') div sz = n'" using assms(2) by simp
  ultimately have "n = n'" using e by simp
  with e show ?thesis by simp
qed

lemma cell_addr_inj:
  assumes "2 * k < sz" and "2 * k' < sz" and "cell_addr c s sz n k = cell_addr c s sz n' k'"
  shows "n = n' \<and> k = k'"
  using assms cell_decomposition[of k sz k' "span_base c s" n n']
  by (simp add: cell_addr_def)

lemma cell_addr_below:
  assumes "2 * k < sz" and "n < m"
  shows "cell_addr c s sz n k < span_base c s + m * sz"
proof -
  have "n * sz + sz \<le> m * sz" using assms(2)
    by (metis Suc_leI mult_Suc mult_le_mono1 add.commute)
  with assms(1) show ?thesis by (simp add: cell_addr_def)
qed

lemma chain_at_upd_above:
  assumes "\<forall>(n, ms) \<in> set ns. n < m \<and> 2 * length ms < sz"
    and "span_base c s + m * sz \<le> a"
  shows "chain_at c s sz (mem(a \<mapsto> v)) head ec ns = chain_at c s sz mem head ec ns"
  using assms(1)
proof (induction ns arbitrary: head ec)
  case Nil
  show ?case by simp
next
  case (Cons x ns)
  obtain n ms where x: "x = (n, ms)" by (cases x)
  from Cons.prems x have nm: "n < m" and len: "2 * length ms < sz"
    and rest: "\<forall>(n, ms) \<in> set ns. n < m \<and> 2 * length ms < sz" by auto
  have ne: "cell_addr c s sz n k \<noteq> a" if "k \<le> length ms" for k
  proof -
    have "2 * k < sz" using that len by simp
    from cell_addr_below[OF this nm, of c s] assms(2) show ?thesis by simp
  qed
  have "\<And>k. k < length ms \<Longrightarrow> cell_addr c s sz n (Suc k) \<noteq> a" using ne by simp
  moreover have "cell_addr c s sz n 0 \<noteq> a" using ne[of 0] by simp
  ultimately show ?case
    using Cons.IH[OF rest] by (auto simp: x)
qed

lemma chain_at_tail_lengths:
  "chain_at c s sz mem head ec ns \<Longrightarrow> (n, ms) \<in> set (tl ns) \<Longrightarrow> length ms = max_embed_of sz"
proof (induction ns arbitrary: head ec)
  case Nil
  then show ?case by simp
next
  case (Cons x ns)
  obtain n0 ms0 where x: "x = (n0, ms0)" by (cases x)
  from Cons.prems(1) x obtain nxt where r: "chain_at c s sz mem nxt (max_embed_of sz) ns"
    by auto
  from Cons.prems(2) have mem: "(n, ms) \<in> set ns" by simp
  show ?case
  proof (cases ns)
    case Nil
    with mem show ?thesis by simp
  next
    case (Cons y ys)
    obtain n1 ms1 where y: "y = (n1, ms1)" by (cases y)
    from r Cons y have l1: "length ms1 = max_embed_of sz" by simp
    from mem Cons y have "(n, ms) = (n1, ms1) \<or> (n, ms) \<in> set (tl ns)" by auto
    then show ?thesis
    proof
      assume "(n, ms) = (n1, ms1)"
      with l1 show ?thesis by simp
    next
      assume "(n, ms) \<in> set (tl ns)"
      from Cons.IH[OF r this] show ?thesis .
    qed
  qed
qed

lemma chain_at_head_length:
  "chain_at c s sz mem head ec ((n, ms) # rest) \<Longrightarrow> length ms = ec"
  by simp

lemma chain_at_all_lengths:
  assumes "chain_at c s sz mem head ec ns" and "ec \<le> max_embed_of sz"
    and "(n, ms) \<in> set ns"
  shows "length ms \<le> max_embed_of sz"
proof (cases ns)
  case Nil
  with assms(3) show ?thesis by simp
next
  case (Cons x xs)
  obtain n0 ms0 where x: "x = (n0, ms0)" by (cases x)
  from assms(3) Cons x have "(n, ms) = (n0, ms0) \<or> (n, ms) \<in> set (tl ns)" by auto
  then show ?thesis
  proof
    assume "(n, ms) = (n0, ms0)"
    with assms(1,2) Cons x show ?thesis by simp
  next
    assume "(n, ms) \<in> set (tl ns)"
    from chain_at_tail_lengths[OF assms(1) this] show ?thesis by simp
  qed
qed

lemma legal_max_embed:
  assumes l: "legal_build c s sz cnt" and c1: "0 < cnt"
  shows "max_embed_of sz = sz div 2 - 1" and "2 * max_embed_of sz < sz"
    and "2 * Suc (max_embed_of sz) \<le> sz"
proof -
  from l have sp: "first_page s * kPageSize c + cnt * sz < 2 ^ 64" by (simp add: legal_build_def)
  have "sz \<le> cnt * sz" using c1 by simp
  with sp have "sz < 2 ^ 64" by linarith
  from max_embed_of_eq[OF legal_size(5)[OF l] this]
  show e: "max_embed_of sz = sz div 2 - 1" .
  from legal_size(5)[OF l] show "2 * max_embed_of sz < sz" unfolding e by arith
  from legal_size(5)[OF l] show "2 * Suc (max_embed_of sz) \<le> sz" unfolding e by arith
qed

lemma chain_cells_Cons:
  "chain_cells c s sz ((n, ms) # ns) =
     (\<lambda>k. cell_addr c s sz n k) ` {..length ms} \<union> chain_cells c s sz ns"
  by (auto simp: chain_cells_def)

lemma chain_cells_Nil: "chain_cells c s sz [] = {}"
  by (simp add: chain_cells_def)

lemma build_inv_node_range:
  assumes "build_inv c s sz cnt mem0 a b host ec fl mem ns" and "(n, ms) \<in> set ns"
  shows "cached_count cnt \<le> n \<and> n < a"
proof -
  from assms(1) have "map fst ns = rev [cached_count cnt..<a]" by (simp add: build_inv_def)
  then have "set (map fst ns) = {cached_count cnt..<a}" by simp
  moreover from assms(2) have "n \<in> set (map fst ns)" by force
  ultimately show ?thesis by simp
qed

lemma build_inv_frame:
  assumes l: "legal_build c s sz cnt" and c1: "0 < cnt"
    and inv: "build_inv c s sz cnt mem0 a b host ec fl mem ns"
  shows "\<forall>(n, ms) \<in> set ns. n < a \<and> 2 * length ms < sz"
proof (clarify, intro conjI)
  fix n ms assume m: "(n, ms) \<in> set ns"
  from build_inv_node_range[OF inv m] show "n < a" by simp
  from inv have ch: "chain_at c s sz mem fl ec ns" and e: "ec \<le> max_embed_of sz"
    by (simp_all add: build_inv_def)
  from chain_at_all_lengths[OF ch e m] legal_max_embed(2)[OF l c1]
  show "2 * length ms < sz" by linarith
qed

lemma rev_upt_last: "c0 < a \<Longrightarrow> rev [c0..<a] = (a - 1) # rev [c0..<a - 1]"
  by (cases a) simp_all

lemma build_inv_host:
  assumes l: "legal_build c s sz cnt"
    and inv: "build_inv c s sz cnt mem0 a b host ec fl mem ns"
    and ab: "a < b" and h: "host = 0 \<or> ec = max_embed_of sz"
  shows "build_inv c s sz cnt mem0 (Suc a) b (cell_addr c s sz a 0) 0 (a * idx_step c sz)
           (mem(cell_addr c s sz a 0 \<mapsto> fl)) ((a, []) # ns)"
proof -
  let ?c0 = "cached_count cnt"
  let ?mem' = "mem(cell_addr c s sz a 0 \<mapsto> fl)"
  from inv have c0a: "?c0 \<le> a" and bc: "b \<le> cnt"
    and ch: "chain_at c s sz mem fl ec ns"
    and fs: "map fst ns = rev [?c0..<a]"
    and ms: "mset (concat (map snd ns)) = mset [b..<cnt]"
    and e: "ec \<le> max_embed_of sz"
    and h0: "ns = [] \<longrightarrow> host = 0 \<and> ec = 0"
    and h1: "ns \<noteq> [] \<longrightarrow> host = cell_addr c s sz (a - 1) 0"
    and dm: "dom mem = dom mem0 \<union> chain_cells c s sz ns"
    by (simp_all add: build_inv_def)
  from ab bc have c1: "0 < cnt" by simp
  then have c0pos: "0 < ?c0" by (simp add: cached_count_def kCacheSize_def)
  have full: "chain_at c s sz mem fl (max_embed_of sz) ns"
  proof (cases ns)
    case Nil
    with ch show ?thesis by simp
  next
    case (Cons x xs)
    then have "?c0 < a" using fs by (cases "?c0 < a") auto
    with c0pos have "0 < a - 1" by simp
    moreover have "0 < sz" using legal_size(5)[OF l] by simp
    ultimately have "0 < (a - 1) * sz" by simp
    then have "cell_addr c s sz (a - 1) 0 \<noteq> 0" by (simp add: cell_addr_def)
    with h1 Cons have "host \<noteq> 0" by simp
    with h have "ec = max_embed_of sz" by simp
    with ch show ?thesis by simp
  qed
  have "span_base c s + a * sz \<le> cell_addr c s sz a 0" by (simp add: cell_addr_def)
  from chain_at_upd_above[OF build_inv_frame[OF l c1 inv] this]
  have fr: "chain_at c s sz ?mem' fl (max_embed_of sz) ns" using full by simp
  have "chain_at c s sz ?mem' (a * idx_step c sz) 0 ((a, []) # ns)"
    using fr by simp
  moreover have "map fst ((a, []) # ns) = rev [?c0..<Suc a]" using fs c0a by simp
  moreover have "mset (concat (map snd ((a, []) # ns))) = mset [b..<cnt]" using ms by simp
  moreover have "dom ?mem' = dom mem0 \<union> chain_cells c s sz ((a, []) # ns)"
    using dm by (auto simp: chain_cells_Cons)
  ultimately show ?thesis
    using c0a ab bc by (simp add: build_inv_def)
qed

lemma build_inv_embed:
  assumes l: "legal_build c s sz cnt"
    and inv: "build_inv c s sz cnt mem0 a b host ec fl mem ns"
    and ab: "a < b" and h: "host \<noteq> 0" and ne: "ec \<noteq> max_embed_of sz"
  shows "\<exists>ns'. build_inv c s sz cnt mem0 a (b - 1) host (Suc ec) fl
           (mem(cell_addr c s sz (a - 1) (Suc ec) \<mapsto> (b - 1) * idx_step c sz)) ns'"
proof -
  let ?c0 = "cached_count cnt"
  let ?w = "cell_addr c s sz (a - 1) (Suc ec)"
  let ?mem' = "mem(?w \<mapsto> (b - 1) * idx_step c sz)"
  from inv have c0a: "?c0 \<le> a" and bc: "b \<le> cnt"
    and ch: "chain_at c s sz mem fl ec ns"
    and fs: "map fst ns = rev [?c0..<a]"
    and ms: "mset (concat (map snd ns)) = mset [b..<cnt]"
    and e: "ec \<le> max_embed_of sz"
    and h0: "ns = [] \<longrightarrow> host = 0 \<and> ec = 0"
    and h1: "ns \<noteq> [] \<longrightarrow> host = cell_addr c s sz (a - 1) 0"
    and dm: "dom mem = dom mem0 \<union> chain_cells c s sz ns"
    by (simp_all add: build_inv_def)
  from ab bc have c1: "0 < cnt" by simp
  from h h0 have nn: "ns \<noteq> []" by auto
  then have c0lt: "?c0 < a" using fs by (cases "?c0 < a") auto
  from nn obtain x rest where nsx: "ns = x # rest" by (cases ns) auto
  obtain n ms0 where x: "x = (n, ms0)" by (cases x)
  from fs nsx x rev_upt_last[OF c0lt] have n: "n = a - 1"
    and fr: "map fst rest = rev [?c0..<a - 1]" by simp_all
  from ch nsx x n obtain nxt where
    len: "length ms0 = ec"
    and ent: "\<forall>k<ec. mem (cell_addr c s sz (a - 1) (Suc k)) = Some (ms0 ! k * idx_step c sz)"
    and lnk: "mem (cell_addr c s sz (a - 1) 0) = Some nxt"
    and rst: "chain_at c s sz mem nxt (max_embed_of sz) rest"
    by auto
  have se: "Suc ec \<le> max_embed_of sz" using e ne by simp
  have w2: "2 * Suc ec < sz" using se legal_max_embed(2)[OF l c1] by arith
  let ?ns' = "(a - 1, ms0 @ [b - 1]) # rest"
  have frame_rest: "\<forall>(n, ms) \<in> set rest. n < a - 1 \<and> 2 * length ms < sz"
  proof (clarify, intro conjI)
    fix n' ms' assume m: "(n', ms') \<in> set rest"
    then have "n' \<in> set (map fst rest)" by force
    with fr show "n' < a - 1" by simp
    from m nsx have "(n', ms') \<in> set ns" by simp
    from chain_at_all_lengths[OF ch e this] legal_max_embed(2)[OF l c1]
    show "2 * length ms' < sz" by linarith
  qed
  have "span_base c s + (a - 1) * sz \<le> ?w" by (simp add: cell_addr_def)
  from chain_at_upd_above[OF frame_rest this]
  have rst': "chain_at c s sz ?mem' nxt (max_embed_of sz) rest" using rst by simp
  have diff: "cell_addr c s sz (a - 1) k \<noteq> ?w" if "k \<le> ec" for k
  proof
    assume eq: "cell_addr c s sz (a - 1) k = ?w"
    have "2 * k < sz" using that w2 by simp
    from cell_addr_inj[OF this w2 eq] that show False by simp
  qed
  have ent': "\<forall>k<Suc ec. ?mem' (cell_addr c s sz (a - 1) (Suc k))
                 = Some ((ms0 @ [b - 1]) ! k * idx_step c sz)"
  proof (intro allI impI)
    fix k assume k: "k < Suc ec"
    show "?mem' (cell_addr c s sz (a - 1) (Suc k)) = Some ((ms0 @ [b - 1]) ! k * idx_step c sz)"
    proof (cases "k = ec")
      case True
      then show ?thesis using len by (simp add: nth_append)
    next
      case False
      with k have kl: "k < ec" by simp
      then have "Suc k \<le> ec" by simp
      from diff[OF this] ent kl len show ?thesis by (simp add: nth_append)
    qed
  qed
  have lnk': "?mem' (cell_addr c s sz (a - 1) 0) = Some nxt"
    using diff[of 0] lnk by simp
  have ch': "chain_at c s sz ?mem' fl (Suc ec) ?ns'"
    using ch nsx x n len ent' lnk' rst' by simp
  have b1: "[b - 1..<cnt] = (b - 1) # [b..<cnt]"
    using ab bc by (metis Suc_diff_1 less_imp_diff_less not_gr_zero not_less_zero upt_conv_Cons
        less_le_trans linorder_not_le zero_less_diff diff_less zero_less_one)
  have "mset (concat (map snd ?ns')) = mset (concat (map snd ns)) + {#b - 1#}"
    using nsx x by simp
  also have "\<dots> = mset [b..<cnt] + {#b - 1#}" by (simp only: ms)
  also have "\<dots> = mset ((b - 1) # [b..<cnt])" by simp
  also have "\<dots> = mset [b - 1..<cnt]" by (simp only: b1)
  finally have ms': "mset (concat (map snd ?ns')) = mset [b - 1..<cnt]" .
  have cells: "chain_cells c s sz ?ns' = insert ?w (chain_cells c s sz ns)"
    unfolding nsx x n chain_cells_Cons using len
    by (auto simp: atMost_Suc)
  have dm': "dom ?mem' = dom mem0 \<union> chain_cells c s sz ?ns'"
    using dm cells by auto
  have fs': "map fst ?ns' = rev [?c0..<a]" using fs nsx x n by simp
  have r1: "a \<le> b - 1" and r2: "b - 1 \<le> cnt" using ab bc by simp_all
  have h0': "?ns' = [] \<longrightarrow> host = 0 \<and> Suc ec = 0" by simp
  have h1': "?ns' \<noteq> [] \<longrightarrow> host = cell_addr c s sz (a - 1) 0" using h1 nn by simp
  have "build_inv c s sz cnt mem0 a (b - 1) host (Suc ec) fl ?mem' ?ns'"
    unfolding build_inv_def
    by (intro conjI c0a r1 r2 ch' fs' ms' se h0' h1' dm')
  then show ?thesis ..
qed

lemma u16_sub:
  assumes "b \<le> a" and "a < 2 ^ 16"
  shows "u16 (a + 2 ^ 16 - b) = a - b"
proof -
  have "a + 2 ^ 16 - b = (a - b) + 2 ^ 16" using assms(1) by simp
  then have "u16 (a + 2 ^ 16 - b) = (a - b) mod 2 ^ 16"
    unfolding u16_def by (simp only: mod_add_self2)
  also have "\<dots> = a - b" using assms(2) by simp
  finally show ?thesis .
qed

lemma legal_cell_slot:
  assumes l: "legal_build c s sz cnt" and n: "n < cnt" and j: "2 * j < sz"
  shows "slot (cell_addr c s sz n 0) j = cell_addr c s sz n j"
  using legal_slot[OF l n j] by (simp add: cell_addr_def)

lemma build_loop_correct:
  assumes l: "legal_build c s sz cnt"
  shows "build_inv c s sz cnt mem0 a b host ec fl mem ns \<Longrightarrow>
         \<exists>a' host' ec' fl' mem' ns'.
           build_loop c s sz (idx_step c sz) (max_embed_of sz) (a * idx_step c sz)
             (b * idx_step c sz) host ec fl mem = Some (Inr (ec', fl', mem')) \<and>
           build_inv c s sz cnt mem0 a' a' host' ec' fl' mem' ns'"
proof (induction "b - a" arbitrary: a b host ec fl mem ns)
  case 0
  from "0.prems" have "a \<le> b" by (simp add: build_inv_def)
  with "0.hyps" have ab: "a = b" by simp
  have "build_loop c s sz (idx_step c sz) (max_embed_of sz) (a * idx_step c sz)
          (b * idx_step c sz) host ec fl mem = Some (Inr (ec, fl, mem))"
    by (subst build_loop.simps) (simp add: ab)
  with "0.prems" ab show ?case by blast
next
  case (Suc d)
  let ?st = "idx_step c sz" and ?me = "max_embed_of sz"
  note inv = Suc.prems
  from Suc.hyps(2) have ab: "a < b" by simp
  from inv have bc: "b \<le> cnt" and c0a: "cached_count cnt \<le> a"
    and h0: "ns = [] \<longrightarrow> host = 0 \<and> ec = 0"
    and h1: "ns \<noteq> [] \<longrightarrow> host = cell_addr c s sz (a - 1) 0"
    and e: "ec \<le> ?me"
    by (simp_all add: build_inv_def)
  from ab bc have c1: "0 < cnt" and ac: "a < cnt" by simp_all
  have st0: "0 < ?st" by (rule legal_size(2)[OF l])
  have lt: "a * ?st < b * ?st" using ab st0 by simp
  have nle: "a * ?st \<noteq> kListEnd c" using legal_index_bound(1)[OF l, of a] ac by simp
  show ?case
  proof (cases "host \<noteq> 0 \<and> ec \<noteq> ?me")
    case True
    then have hn: "host \<noteq> 0" and ne: "ec \<noteq> ?me" by simp_all
    from hn h0 h1 have host: "host = cell_addr c s sz (a - 1) 0" by auto
    have "?st \<le> b * ?st" using ab by (cases b) simp_all
    moreover have "b * ?st < 2 ^ 16" by (rule legal_index_bound(2)[OF l bc])
    ultimately have "u16 (b * ?st + 2 ^ 16 - ?st) = b * ?st - ?st" by (rule u16_sub)
    also have "\<dots> = (b - 1) * ?st" by (simp add: diff_mult_distrib)
    finally have ie: "u16 (b * ?st + 2 ^ 16 - ?st) = (b - 1) * ?st" .
    have "2 * Suc ec < sz" using e ne legal_max_embed(2)[OF l c1] by arith
    moreover have "a - 1 < cnt" using ac by simp
    ultimately have sl: "slot host (Suc ec) = cell_addr c s sz (a - 1) (Suc ec)"
      unfolding host by (intro legal_cell_slot[OF l])
    from build_inv_embed[OF l inv ab hn ne] obtain ns' where
      inv': "build_inv c s sz cnt mem0 a (b - 1) host (Suc ec) fl
               (mem(cell_addr c s sz (a - 1) (Suc ec) \<mapsto> (b - 1) * ?st)) ns'" ..
    have d: "d = (b - 1) - a" using Suc.hyps(2) by simp
    have step: "build_loop c s sz ?st ?me (a * ?st) (b * ?st) host ec fl mem =
                build_loop c s sz ?st ?me (a * ?st) ((b - 1) * ?st) host (Suc ec) fl
                  (mem(cell_addr c s sz (a - 1) (Suc ec) \<mapsto> (b - 1) * ?st))"
      by (subst build_loop.simps) (simp add: ab st0 nle hn ne ie[simplified] sl Let_def)
    from Suc.hyps(1)[OF d inv'] show ?thesis unfolding step .
  next
    case False
    then have h: "host = 0 \<or> ec = ?me" by simp
    have ip: "IdxToPtr c s (a * ?st) sz = Inr (cell_addr c s sz a 0)"
      using legal_IdxToPtr[OF l ac] by (simp add: cell_addr_def)
    have "2 * 0 < sz" using legal_size(5)[OF l] by simp
    from legal_cell_slot[OF l ac this]
    have sl: "slot (cell_addr c s sz a 0) 0 = cell_addr c s sz a 0" .
    have "Suc a * ?st < 2 ^ 16" using legal_index_bound(2)[OF l, of "Suc a"] ac by simp
    then have ie: "u16 (a * ?st + ?st) = Suc a * ?st" by (simp add: u16_def)
    note inv' = build_inv_host[OF l inv ab h]
    have d: "d = b - Suc a" using Suc.hyps(2) by simp
    have step: "build_loop c s sz ?st ?me (a * ?st) (b * ?st) host ec fl mem =
                build_loop c s sz ?st ?me (Suc a * ?st) (b * ?st) (cell_addr c s sz a 0) 0
                  (a * ?st) (mem(cell_addr c s sz a 0 \<mapsto> fl))"
      using False by (subst build_loop.simps) (auto simp: ab st0 nle ip sl ie[simplified] Let_def)
    from Suc.hyps(1)[OF d inv'] show ?thesis unfolding step .
  qed
qed

lemma cache_loop_fill:
  assumes st: "0 < st" and bound: "cnt * st < 2 ^ 16"
  shows "k \<le> cached_count cnt \<Longrightarrow> length arr = kCacheSize \<Longrightarrow>
         \<exists>arr'. cache_loop st (cnt * st) (k * st) arr k
                   = (cached_count cnt * st, arr', cached_count cnt) \<and>
                length arr' = kCacheSize \<and>
                take (cached_count cnt) arr'
                  = take k arr @ map (\<lambda>j. j * st) [k..<cached_count cnt]"
proof (induction "cached_count cnt - k" arbitrary: k arr)
  case 0
  then have k: "k = cached_count cnt" by simp
  then have "\<not> (k * st < cnt * st \<and> k < kCacheSize)"
    using st by (auto simp: cached_count_def min_def split: if_splits)
  then have "cache_loop st (cnt * st) (k * st) arr k = (k * st, arr, k)"
    by (subst cache_loop.simps) auto
  with k "0.prems" show ?case by simp
next
  case (Suc d)
  then have k: "k < cached_count cnt" by simp
  then have kc: "k < cnt" and k4: "k < kCacheSize" by (simp_all add: cached_count_def)
  have "Suc k * st \<le> cnt * st" using kc by (intro mult_le_mono1) simp
  with bound have "Suc k * st < 2 ^ 16" by linarith
  then have ie: "u16 (k * st + st) = Suc k * st" by (simp add: u16_def)
  have cond: "k * st < cnt * st \<and> k < kCacheSize" using kc k4 st by simp
  have step: "cache_loop st (cnt * st) (k * st) arr k
        = cache_loop st (cnt * st) (Suc k * st) (arr[k := k * st]) (Suc k)"
    using cond ie by (subst cache_loop.simps) simp
  have d: "d = cached_count cnt - Suc k" using Suc.hyps(2) by simp
  have sk: "Suc k \<le> cached_count cnt" using k by simp
  have l': "length (arr[k := k * st]) = kCacheSize" using Suc.prems(2) by simp
  from Suc.hyps(1)[OF d sk l'] obtain arr' where
    r: "cache_loop st (cnt * st) (Suc k * st) (arr[k := k * st]) (Suc k)
          = (cached_count cnt * st, arr', cached_count cnt)"
    and la: "length arr' = kCacheSize"
    and tk: "take (cached_count cnt) arr'
               = take (Suc k) (arr[k := k * st]) @ map (\<lambda>j. j * st) [Suc k..<cached_count cnt]"
    by blast
  have "take (Suc k) (arr[k := k * st]) = take k arr @ [k * st]"
    using k4 Suc.prems(2) by (simp add: take_Suc_conv_app_nth)
  moreover have "[k..<cached_count cnt] = k # [Suc k..<cached_count cnt]"
    using k by (simp add: upt_conv_Cons)
  ultimately have "take (cached_count cnt) arr'
      = take k arr @ map (\<lambda>j. j * st) [k..<cached_count cnt]"
    using tk by simp
  with r la show ?case unfolding step by blast
qed

lemma build_inv_embed_bound:
  assumes "build_inv c s sz cnt mem0 a b host ec fl mem ns"
  shows "ec \<le> cnt"
proof (cases ns)
  case Nil
  with assms show ?thesis by (simp add: build_inv_def)
next
  case (Cons x xs)
  obtain n ms where x: "x = (n, ms)" by (cases x)
  from assms have ch: "chain_at c s sz mem fl ec ns"
    and m: "mset (concat (map snd ns)) = mset [b..<cnt]" by (simp_all add: build_inv_def)
  from ch Cons x have "length ms = ec" by simp
  moreover have "length ms \<le> length (concat (map snd ns))" using Cons x by simp
  moreover have "length (concat (map snd ns)) = length [b..<cnt]"
    using m by (metis size_mset)
  ultimately show ?thesis by simp
qed

lemma legal_idxStep:
  assumes l: "legal_build c s sz cnt" and c1: "0 < cnt"
  shows "(if sz > kMultiPageSize c then u16 (sz div kMultiPageAlignment c)
          else u16 (sz div kAlignment c)) = idx_step c sz"
proof -
  have "idx_step c sz \<le> cnt * idx_step c sz" using c1 by simp
  with legal_index_bound(2)[OF l, of cnt] have "idx_step c sz < 2 ^ 16" by linarith
  then have "u16 (idx_step c sz) = idx_step c sz" by (simp add: u16_def)
  then show ?thesis
    by (auto simp: idx_step_def mode_shift_def kAlignment_def kMultiPageAlignment_def)
qed

lemma build_inv_initial:
  "build_inv c s sz cnt mem0 (cached_count cnt) cnt 0 0 (kListEnd c) mem0 []"
  by (simp add: build_inv_def cached_count_def chain_cells_Nil)

lemma BuildFreelist_built:
  assumes l: "legal_build c s sz cnt"
  shows "\<exists>s' mem' ns. BuildFreelist c s sz cnt mem0 = Some (Inr (s', mem')) \<and>
           built c s sz cnt mem0 s' mem' ns"
proof (cases "cnt = 0")
  case True
  from l have k: "0 < kListEnd c" and len: "length (cache s) = kCacheSize"
    by (simp_all add: legal_build_def)
  have cl: "cache_loop x 0 0 (cache s) 0 = (0, cache s, 0)" for x
    by (subst cache_loop.simps) simp
  have bl: "build_loop c s sz x (max_embed_of sz) 0 0 0 0 (kListEnd c) mem0
              = Some (Inr (0, kListEnd c, mem0))" for x
    by (subst build_loop.simps) simp
  let ?s' = "s\<lparr>allocated := 0, freelist := kListEnd c, embed_count := 0,
                cache := cache s, cache_size := 0\<rparr>"
  have r: "BuildFreelist c s sz cnt mem0 = Some (Inr (?s', mem0))"
    using True k by (simp add: BuildFreelist_def Let_def u64_def u16_def cl bl)
  have "build_inv c s sz cnt mem0 0 0 0 (embed_count ?s') (freelist ?s') mem0 []"
    using build_inv_initial[of c s sz cnt mem0] True by (simp add: cached_count_def)
  then have "built c s sz cnt mem0 ?s' mem0 []"
    unfolding built_def using True len by (auto simp: cached_count_def)
  with r show ?thesis by blast
next
  case False
  then have c1: "0 < cnt" by simp
  let ?st = "idx_step c sz" and ?c0 = "cached_count cnt"
  from l have len: "length (cache s) = kCacheSize" and ke: "cnt * ?st < kListEnd c"
    by (simp_all add: legal_build_def)
  have b16: "cnt * ?st < 2 ^ 16" by (rule legal_index_bound(2)[OF l]) simp
  then have "cnt * ?st < 2 ^ 64"
    by (rule less_trans) simp
  then have e64: "u64 (cnt * ?st) = cnt * ?st" by (simp add: u64_def)
  have e16: "u16 (cnt * ?st) = cnt * ?st" using b16 by (simp add: u16_def)
  from cache_loop_fill[OF legal_size(2)[OF l] b16, of 0 "cache s"] len
  obtain arr' where
    cl: "cache_loop ?st (cnt * ?st) 0 (cache s) 0 = (?c0 * ?st, arr', ?c0)"
    and la: "length arr' = kCacheSize"
    and tk: "take ?c0 arr' = map (\<lambda>j. j * ?st) [0..<?c0]"
    by auto
  from build_loop_correct[OF l build_inv_initial[of c s sz cnt mem0]]
  obtain a' host' ec' fl' mem' ns' where
    bl: "build_loop c s sz ?st (max_embed_of sz) (?c0 * ?st) (cnt * ?st) 0 0 (kListEnd c) mem0
           = Some (Inr (ec', fl', mem'))"
    and inv: "build_inv c s sz cnt mem0 a' a' host' ec' fl' mem' ns'"
    by blast
  have "cnt \<le> cnt * ?st" using legal_size(2)[OF l] by simp
  with build_inv_embed_bound[OF inv] b16 have "ec' < 2 ^ 16" by linarith
  then have ec: "u16 ec' = ec'" by (simp add: u16_def)
  let ?s' = "s\<lparr>allocated := 0, freelist := fl', embed_count := ec',
                cache := arr', cache_size := ?c0\<rparr>"
  have r: "BuildFreelist c s sz cnt mem0 = Some (Inr (?s', mem'))"
    unfolding BuildFreelist_def Let_def legal_idxStep[OF l c1] e64 e16
    using ke by (simp add: cl bl ec)
  have "built c s sz cnt mem0 ?s' mem' ns'"
    unfolding built_def using inv la tk by auto
  with r show ?thesis by blast
qed

lemma those_map_Some: "those (map Some xs) = Some xs"
  by (induction xs) simp_all

lemma chain_nodes_span:
  "first_page s' = first_page s \<Longrightarrow>
   chain_nodes c s' sz mem fuel head ec = chain_nodes c s sz mem fuel head ec"
proof -
  assume "first_page s' = first_page s"
  then have oa: "obj_addr c s' sz i = obj_addr c s sz i" for i by (simp add: obj_addr_def)
  show ?thesis
    by (induction fuel arbitrary: head ec) (simp_all add: oa cong: option.case_cong)
qed

lemma chain_at_read_embedded:
  assumes l: "legal_build c s sz cnt" and n: "n < cnt" and len: "2 * length ms < sz"
    and ent: "\<forall>k<length ms. mem (cell_addr c s sz n (Suc k)) = Some (ms ! k * st)"
  shows "read_embedded mem (cell_addr c s sz n 0) (length ms) = Some (map (\<lambda>m. m * st) ms)"
proof -
  have "map (\<lambda>k. mem (slot (cell_addr c s sz n 0) k)) [1..<Suc (length ms)]
          = map Some (map (\<lambda>m. m * st) ms)"
  proof (rule nth_equalityI)
    show "length (map (\<lambda>k. mem (slot (cell_addr c s sz n 0) k)) [1..<Suc (length ms)])
            = length (map Some (map (\<lambda>m. m * st) ms))" by (simp del: upt_Suc)
  next
    fix i assume "i < length (map (\<lambda>k. mem (slot (cell_addr c s sz n 0) k)) [1..<Suc (length ms)])"
    then have i: "i < length ms" by (simp del: upt_Suc)
    then have "2 * Suc i < sz" using len by arith
    from legal_cell_slot[OF l n this]
    have "slot (cell_addr c s sz n 0) (Suc i) = cell_addr c s sz n (Suc i)" .
    moreover have "[1..<Suc (length ms)] ! i = Suc i" using i by (simp del: upt_Suc)
    ultimately show "map (\<lambda>k. mem (slot (cell_addr c s sz n 0) k)) [1..<Suc (length ms)] ! i
                       = map Some (map (\<lambda>m. m * st) ms) ! i"
      using i ent by (simp del: upt_Suc)
  qed
  then show ?thesis by (simp only: read_embedded_def those_map_Some)
qed

lemma chain_at_chain_nodes:
  assumes l: "legal_build c s sz cnt"
  shows "chain_at c s sz mem head ec ns \<Longrightarrow>
         \<forall>(n, ms) \<in> set ns. n < cnt \<and> 2 * length ms < sz \<Longrightarrow>
         length ns \<le> fuel \<Longrightarrow>
         chain_nodes c s sz mem fuel head ec = Some (scale_nodes (idx_step c sz) ns)"
proof (induction ns arbitrary: head ec fuel)
  case Nil
  then show ?case by (cases fuel) (simp_all add: scale_nodes_def)
next
  case (Cons x ns)
  obtain n ms where x: "x = (n, ms)" by (cases x)
  from Cons.prems(3) obtain f where fuel: "fuel = Suc f" and f: "length ns \<le> f"
    by (cases fuel) auto
  from Cons.prems(2) x have n: "n < cnt" and len: "2 * length ms < sz"
    and rest: "\<forall>(n, ms) \<in> set ns. n < cnt \<and> 2 * length ms < sz" by auto
  from Cons.prems(1) x obtain nxt where
    hd: "head = n * idx_step c sz" and le: "length ms = ec"
    and ent: "\<forall>k<ec. mem (cell_addr c s sz n (Suc k)) = Some (ms ! k * idx_step c sz)"
    and lnk: "mem (cell_addr c s sz n 0) = Some nxt"
    and rst: "chain_at c s sz mem nxt (max_embed_of sz) ns"
    by auto
  have ne: "head \<noteq> kListEnd c" using legal_index_bound(1)[OF l, of n] n hd by simp
  have oa: "obj_addr c s sz head = cell_addr c s sz n 0"
    unfolding hd using legal_obj_addr[OF l n] by (simp add: cell_addr_def)
  have "2 * 0 < sz" using legal_size(5)[OF l] by simp
  from legal_cell_slot[OF l n this]
  have s0: "slot (cell_addr c s sz n 0) 0 = cell_addr c s sz n 0" .
  from chain_at_read_embedded[OF l n len] ent le
  have re: "read_embedded mem (cell_addr c s sz n 0) ec
              = Some (map (\<lambda>m. m * idx_step c sz) ms)" by auto
  from Cons.IH[OF rst rest f]
  have ih: "chain_nodes c s sz mem f nxt (max_embed_of sz) = Some (scale_nodes (idx_step c sz) ns)" .
  show ?case
    unfolding fuel using ne oa s0 lnk re ih
    by (simp add: scale_nodes_def x hd)
qed

lemma mset_node_indices:
  "mset (node_indices nodes) = mset (map fst nodes) + mset (concat (map snd nodes))"
  by (induction nodes) (auto simp: node_indices_def)

lemma length_node_indices:
  "length (node_indices nodes) = length nodes + length (concat (map snd nodes))"
  by (induction nodes) (auto simp: node_indices_def)

lemma scale_nodes_fst: "map fst (scale_nodes st ns) = map (\<lambda>n. n * st) (map fst ns)"
  by (induction ns) (auto simp: scale_nodes_def)

lemma scale_nodes_snd:
  "concat (map snd (scale_nodes st ns)) = map (\<lambda>n. n * st) (concat (map snd ns))"
  by (induction ns) (auto simp: scale_nodes_def)

lemma mset_scaled_node_indices:
  "mset (node_indices (scale_nodes st ns))
     = image_mset (\<lambda>n. n * st) (mset (map fst ns) + mset (concat (map snd ns)))"
  by (simp only: mset_node_indices scale_nodes_fst scale_nodes_snd mset_map image_mset_union)

lemma built_span:
  assumes "built c s sz cnt mem0 s' mem' ns"
  shows "first_page s' = first_page s" and "cache_size s' = cached_count cnt"
    and "allocated s' = 0" and "length (cache s') = kCacheSize"
    and "cache_indices s' = map (\<lambda>j. j * idx_step c sz) [0..<cached_count cnt]"
proof -
  from assms have e: "s' = s\<lparr>allocated := 0, freelist := freelist s',
      embed_count := embed_count s', cache := cache s', cache_size := cached_count cnt\<rparr>"
    and tk: "take (cached_count cnt) (cache s')
               = map (\<lambda>j. j * idx_step c sz) [0..<cached_count cnt]"
    and len: "length (cache s') = kCacheSize"
    by (simp_all add: built_def)
  show "first_page s' = first_page s" by (subst e) simp
  show cs: "cache_size s' = cached_count cnt" by (subst e) simp
  show "allocated s' = 0" by (subst e) simp
  show "length (cache s') = kCacheSize" by (rule len)
  show "cache_indices s' = map (\<lambda>j. j * idx_step c sz) [0..<cached_count cnt]"
    unfolding cache_indices_def cs by (rule tk)
qed

lemma built_chain:
  assumes l: "legal_build c s sz cnt" and b: "built c s sz cnt mem0 s' mem' ns"
  shows "chain_at c s sz mem' (freelist s') (embed_count s') ns"
    and "\<forall>(n, ms) \<in> set ns. n < cnt \<and> 2 * length ms < sz"
    and "length ns \<le> cnt"
    and "mset (map fst ns) + mset (concat (map snd ns)) = mset [cached_count cnt..<cnt]"
    and "embed_count s' \<le> max_embed_of sz"
    and "dom mem' = dom mem0 \<union> chain_cells c s sz ns"
    and "distinct (map fst ns)"
proof -
  from b obtain a' host' where
    inv: "build_inv c s sz cnt mem0 a' a' host' (embed_count s') (freelist s') mem' ns"
    by (auto simp: built_def)
  then have c0a: "cached_count cnt \<le> a'" and ac: "a' \<le> cnt"
    and ch: "chain_at c s sz mem' (freelist s') (embed_count s') ns"
    and fs: "map fst ns = rev [cached_count cnt..<a']"
    and ms: "mset (concat (map snd ns)) = mset [a'..<cnt]"
    and e: "embed_count s' \<le> max_embed_of sz"
    and dm: "dom mem' = dom mem0 \<union> chain_cells c s sz ns"
    by (simp_all add: build_inv_def)
  show "chain_at c s sz mem' (freelist s') (embed_count s') ns" by (rule ch)
  show "embed_count s' \<le> max_embed_of sz" by (rule e)
  show "dom mem' = dom mem0 \<union> chain_cells c s sz ns" by (rule dm)
  show "distinct (map fst ns)" unfolding fs by simp
  have "length ns = length (map fst ns)" by simp
  also have "\<dots> = a' - cached_count cnt" unfolding fs by simp
  finally show "length ns \<le> cnt" using ac by simp
  have "[cached_count cnt..<cnt] = [cached_count cnt..<a'] @ [a'..<cnt]"
    using c0a ac by (metis le_Suc_ex upt_add_eq_append)
  then show "mset (map fst ns) + mset (concat (map snd ns)) = mset [cached_count cnt..<cnt]"
    unfolding fs ms by (simp only: mset_rev mset_append)
  show "\<forall>(n, ms) \<in> set ns. n < cnt \<and> 2 * length ms < sz"
  proof (cases "cnt = 0")
    case True
    with ac fs show ?thesis by simp
  next
    case False
    then have c1: "0 < cnt" by simp
    from build_inv_frame[OF l c1 inv] ac show ?thesis by fastforce
  qed
qed

lemma object_indices_split:
  "mset (object_indices st cnt)
     = mset (map (\<lambda>j. j * st) [0..<cached_count cnt])
       + image_mset (\<lambda>n. n * st) (mset [cached_count cnt..<cnt])"
proof -
  have "[0..<cnt] = [0..<cached_count cnt] @ [cached_count cnt..<cnt]"
    by (metis cached_count_def min.cobounded1 le_Suc_ex upt_add_eq_append zero_le)
  then have "object_indices st cnt
      = map (\<lambda>j. j * st) [0..<cached_count cnt] @ map (\<lambda>j. j * st) [cached_count cnt..<cnt]"
    unfolding object_indices_def by (simp only: map_append)
  then show ?thesis by (simp only: mset_append mset_map)
qed

lemma object_indices_distinct: "0 < st \<Longrightarrow> distinct (object_indices st cnt)"
  by (simp add: object_indices_def distinct_map inj_on_def)

lemma BuildFreelist_accounts:
  assumes l: "legal_build c s sz cnt"
  shows "\<exists>s' mem' ns. BuildFreelist c s sz cnt mem = Some (Inr (s', mem')) \<and>
           built c s sz cnt mem s' mem' ns \<and>
           chain_nodes c s' sz mem' cnt (freelist s') (embed_count s')
             = Some (scale_nodes (idx_step c sz) ns) \<and>
           mset (free_indices s' (scale_nodes (idx_step c sz) ns))
             = mset (object_indices (idx_step c sz) cnt)"
proof -
  from BuildFreelist_built[OF l, of mem] obtain s' mem' ns where
    r: "BuildFreelist c s sz cnt mem = Some (Inr (s', mem'))"
    and b: "built c s sz cnt mem s' mem' ns" by blast
  note sp = built_span[OF b] and ch = built_chain[OF l b]
  from chain_at_chain_nodes[OF l ch(1) ch(2) ch(3)]
  have cn: "chain_nodes c s' sz mem' cnt (freelist s') (embed_count s')
              = Some (scale_nodes (idx_step c sz) ns)"
    by (simp only: chain_nodes_span[OF sp(1)])
  have "mset (free_indices s' (scale_nodes (idx_step c sz) ns))
          = mset (object_indices (idx_step c sz) cnt)"
    unfolding free_indices_def mset_append sp(5) mset_scaled_node_indices ch(4)
      object_indices_split ..
  with r b cn show ?thesis by blast
qed

text \<open>
  C2. For every legal input, \<^verbatim>\<open>BuildFreelist\<close> returns, and the free indices it leaves
  (the inline cache, one index per chain node and the embedded entries of every
  node, read back from the span and the memory) are as a multiset the indices
  \<open>0, idxStep, ..., (cnt - 1) * idxStep\<close> of the span's \<open>cnt\<close> objects: there are \<open>cnt\<close> of
  them (the cache count plus the number of nodes plus the number of embedded
  entries), none occurs twice and none is the sentinel \<^verbatim>\<open>kListEnd\<close>.
\<close>

theorem BuildFreelist_conservation:
  assumes l: "legal_build c s sz cnt"
  shows "\<exists>s' mem' nodes.
           BuildFreelist c s sz cnt mem = Some (Inr (s', mem')) \<and>
           chain_nodes c s' sz mem' cnt (freelist s') (embed_count s') = Some nodes \<and>
           mset (free_indices s' nodes) = mset (object_indices (idx_step c sz) cnt) \<and>
           length (free_indices s' nodes) = cnt \<and>
           length (free_indices s' nodes)
             = cache_size s' + length nodes + length (concat (map snd nodes)) \<and>
           distinct (free_indices s' nodes) \<and>
           kListEnd c \<notin> set (free_indices s' nodes)"
proof -
  from BuildFreelist_accounts[OF l, of mem] obtain s' mem' ns where
    r: "BuildFreelist c s sz cnt mem = Some (Inr (s', mem'))"
    and b: "built c s sz cnt mem s' mem' ns"
    and cn: "chain_nodes c s' sz mem' cnt (freelist s') (embed_count s')
              = Some (scale_nodes (idx_step c sz) ns)"
    and ms: "mset (free_indices s' (scale_nodes (idx_step c sz) ns))
              = mset (object_indices (idx_step c sz) cnt)" by blast
  let ?nodes = "scale_nodes (idx_step c sz) ns" and ?st = "idx_step c sz"
  have len: "length (free_indices s' ?nodes) = cnt"
    using mset_eq_length[OF ms] by (simp add: object_indices_def)
  have "length (cache_indices s') = cache_size s'"
    using built_span(2,4,5)[OF b] by (simp add: cached_count_def)
  moreover have "length (node_indices ?nodes) = length ?nodes + length (concat (map snd ?nodes))"
    by (rule length_node_indices)
  ultimately have parts: "length (free_indices s' ?nodes)
      = cache_size s' + length ?nodes + length (concat (map snd ?nodes))"
    by (simp add: free_indices_def)
  have dist: "distinct (free_indices s' ?nodes)"
    using mset_eq_imp_distinct_iff[OF ms] object_indices_distinct[OF legal_size(2)[OF l]]
    by simp
  have "set (free_indices s' ?nodes) = set (object_indices ?st cnt)"
    by (rule mset_eq_setD[OF ms])
  moreover have "kListEnd c \<notin> set (object_indices ?st cnt)"
  proof
    assume "kListEnd c \<in> set (object_indices ?st cnt)"
    then obtain k where "k < cnt" and "kListEnd c = k * ?st"
      by (auto simp: object_indices_def)
    with legal_index_bound(1)[OF l, of k] show False by simp
  qed
  ultimately have nk: "kListEnd c \<notin> set (free_indices s' ?nodes)" by simp
  from r cn ms len parts dist nk show ?thesis by blast
qed

lemma list4:
  assumes "length xs = 4"
  obtains x0 x1 x2 x3 where "xs = [x0, x1, x2, x3]"
proof -
  from assms obtain x0 r0 where a: "xs = x0 # r0" "length r0 = 3"
    by (cases xs) auto
  then obtain x1 r1 where b: "r0 = x1 # r1" "length r1 = 2" by (cases r0) auto
  then obtain x2 r2 where c: "r1 = x2 # r2" "length r2 = 1" by (cases r1) auto
  then obtain x3 where d: "r2 = [x3]" by (cases r2) auto
  from a b c d have "xs = [x0, x1, x2, x3]" by simp
  then show ?thesis by (rule that)
qed

lemma chain_nodes_end: "chain_nodes c s sz mem fuel (kListEnd c) ec = Some []"
  by (cases fuel) simp_all

text \<open>
  C3. With alignment 8 (\<^verbatim>\<open>kAlignmentShift\<close> 3), object size 16 in the small-object
  mode (index step 2), 6 objects and the cache capacity 4, \<^verbatim>\<open>BuildFreelist\<close> leaves
  the cache holding the indices 0, 2, 4, 6 with cache count 4, and a chain of one
  node: the head is index 8, its cell 0 (the forward link) holds the sentinel, its
  cell 1 holds its only embedded entry 10, and \<^verbatim>\<open>embed_count_\<close> is 1; the six free
  indices are 4 cached, 1 chain head and 1 embedded.
\<close>

theorem BuildFreelist_worked_example:
  assumes l: "legal_build c s 16 6" and al: "kAlignmentShift c = 3"
    and small: "16 \<le> kMultiPageSize c"
  shows "\<exists>s' mem'. BuildFreelist c s 16 6 mem = Some (Inr (s', mem')) \<and>
           cache_indices s' = [0, 2, 4, 6] \<and> cache_size s' = 4 \<and>
           freelist s' = 8 \<and> embed_count s' = 1 \<and> allocated s' = 0 \<and>
           mem' (slot (obj_addr c s' 16 8) 0) = Some (kListEnd c) \<and>
           mem' (slot (obj_addr c s' 16 8) 1) = Some 10 \<and>
           chain_nodes c s' 16 mem' 6 (freelist s') (embed_count s') = Some [(8, [10])] \<and>
           free_indices s' [(8, [10])] = [0, 2, 4, 6, 8, 10]"
proof -
  have ms: "mode_shift c 16 = 3" using al small by (simp add: mode_shift_def)
  have st: "idx_step c 16 = 2" by (simp add: idx_step_def ms)
  from l have len: "length (cache s) = 4" and ke: "12 < kListEnd c"
    by (simp_all add: legal_build_def kCacheSize_def st)
  from len obtain x0 x1 x2 x3 where cs: "cache s = [x0, x1, x2, x3]" by (rule list4)
  let ?h = "span_base c s + 64"
  have ip: "IdxToPtr c s 8 16 = Inr ?h"
    using legal_IdxToPtr[OF l, of 4] by (simp add: st)
  have oa: "obj_addr c s 16 8 = ?h"
    using legal_obj_addr[OF l, of 4] by (simp add: st)
  have s0: "slot ?h 0 = ?h" using legal_slot[OF l, of 4 0] by simp
  have s1: "slot ?h (Suc 0) = ?h + 2" using legal_slot[OF l, of 4 1] by simp
  have cl: "cache_loop 2 12 0 [x0, x1, x2, x3] 0 = (8, [0, 2, 4, 6], 4)"
    by (simp add: cache_loop.simps kCacheSize_def u16_def)
  have bl: "build_loop c s 16 2 7 8 12 0 0 (kListEnd c) mem
              = Some (Inr (1, 8, mem(?h \<mapsto> kListEnd c, ?h + 2 \<mapsto> 10)))"
    using ke by (simp add: build_loop.simps ip s0 s1 u16_def Let_def)
  let ?s' = "s\<lparr>allocated := 0, freelist := 8, embed_count := 1,
                cache := [0, 2, 4, 6], cache_size := 4\<rparr>"
  let ?mem' = "mem(?h \<mapsto> kListEnd c, ?h + 2 \<mapsto> 10)"
  have r: "BuildFreelist c s 16 6 mem = Some (Inr (?s', ?mem'))"
    using ke small al
    by (simp add: BuildFreelist_def Let_def kAlignment_def u16_def u64_def cs cl
        max_embed_of_def sizeof_ObjIdx_def bl)
  have oa': "obj_addr c ?s' 16 8 = ?h" using oa by (simp add: obj_addr_def)
  have m0: "?mem' (slot (obj_addr c ?s' 16 8) 0) = Some (kListEnd c)"
    unfolding oa' s0 by simp
  have m1: "?mem' (slot (obj_addr c ?s' 16 8) 1) = Some 10"
    unfolding oa' using s1 by simp
  have ch: "chain_at c s 16 ?mem' 8 1 [(4, [5])]"
    by (simp add: cell_addr_def st)
  have fr: "\<forall>(n, ms) \<in> set [(4, [5::nat])]. n < (6::nat) \<and> 2 * length ms < (16::nat)" by simp
  have "chain_nodes c s 16 ?mem' 6 8 1 = Some (scale_nodes (idx_step c 16) [(4, [5])])"
    by (rule chain_at_chain_nodes[OF l ch fr]) simp
  then have cs: "chain_nodes c s 16 ?mem' 6 8 1 = Some [(8, [10])]"
    by (simp add: scale_nodes_def st)
  have "chain_nodes c ?s' 16 ?mem' 6 8 1 = chain_nodes c s 16 ?mem' 6 8 1"
    by (rule chain_nodes_span) simp
  then have cs': "chain_nodes c ?s' 16 ?mem' 6 8 1 = Some [(8, [10])]" using cs by (rule trans)
  have f8: "freelist ?s' = 8" and e1: "embed_count ?s' = 1" by simp_all
  have cn: "chain_nodes c ?s' 16 ?mem' 6 (freelist ?s') (embed_count ?s')
                         = Some [(8, [10])]"
    unfolding f8 e1 by (rule cs')
  have fi: "free_indices ?s' [(8, [10])] = [0, 2, 4, 6, 8, 10]"
    by (simp add: free_indices_def cache_indices_def node_indices_def)
  have ci: "cache_indices ?s' = [0, 2, 4, 6]" by (simp add: cache_indices_def)
  have c4: "cache_size ?s' = 4" and a0: "allocated ?s' = 0" by simp_all
  show ?thesis
    by (intro exI[of _ ?s'] exI[of _ ?mem'] conjI r ci c4 f8 e1 a0 m0 m1 cn fi)
qed

lemma legal_example: "legal_build debug_config stale_span 16 6"
  using wf_debug_config
  by (simp add: legal_build_def stale_span_def kCacheSize_def mode_shift_def
      idx_step_def debug_config_def kPageSize_def)

theorem BuildFreelist_worked_example_witness:
  "legal_build debug_config stale_span 16 6 \<and> kAlignmentShift debug_config = 3 \<and>
   16 \<le> kMultiPageSize debug_config \<and>
   (\<exists>s' mem'. BuildFreelist debug_config stale_span 16 6 Map.empty = Some (Inr (s', mem')) \<and>
      cache_indices s' = [0, 2, 4, 6] \<and> cache_size s' = 4 \<and>
      freelist s' = 8 \<and> embed_count s' = 1 \<and> allocated s' = 0 \<and>
      mem' (slot (obj_addr debug_config s' 16 8) 0) = Some 65535 \<and>
      mem' (slot (obj_addr debug_config s' 16 8) 1) = Some 10 \<and>
      chain_nodes debug_config s' 16 mem' 6 (freelist s') (embed_count s') = Some [(8, [10])] \<and>
      free_indices s' [(8, [10])] = [0, 2, 4, 6, 8, 10])"
proof -
  have a: "kAlignmentShift debug_config = 3" and b: "16 \<le> kMultiPageSize debug_config"
    and k: "kListEnd debug_config = 65535"
    by (simp_all add: debug_config_def)
  from BuildFreelist_worked_example [OF legal_example a b, of Map.empty]
  show ?thesis unfolding k using legal_example a b by blast
qed

lemma legal_two_nodes: "legal_build production_config stale_span 8 20"
  using wf_production_config
  by (simp add: legal_build_def stale_span_def kCacheSize_def
      mode_shift_def idx_step_def production_config_def kPageSize_def)

theorem BuildFreelist_conservation_witness:
  "legal_build production_config stale_span 8 20 \<and>
   (\<exists>s' mem' nodes.
      BuildFreelist production_config stale_span 8 20 Map.empty = Some (Inr (s', mem')) \<and>
      chain_nodes production_config s' 8 mem' 20 (freelist s') (embed_count s') = Some nodes \<and>
      mset (free_indices s' nodes) = mset [0..<20] \<and>
      length (free_indices s' nodes) = 20 \<and>
      length (free_indices s' nodes)
        = cache_size s' + length nodes + length (concat (map snd nodes)) \<and>
      distinct (free_indices s' nodes) \<and>
      65535 \<notin> set (free_indices s' nodes))"
proof -
  have st: "idx_step production_config 8 = 1"
    by (simp add: idx_step_def mode_shift_def production_config_def)
  have k: "kListEnd production_config = 65535" by (simp add: production_config_def)
  have oi: "object_indices 1 20 = [0..<20]"
    unfolding object_indices_def by (simp only: mult_1_right map_ident)
  from BuildFreelist_conservation [OF legal_two_nodes, of Map.empty]
  show ?thesis unfolding st k oi using legal_two_nodes by blast
qed

section \<open>Only the head node is partially filled\<close>

lemma chain_cells_node:
  assumes fr: "\<forall>(n, ms) \<in> set ns. n < cnt \<and> 2 * length ms < sz"
    and d: "distinct (map fst ns)" and m: "(n, ms) \<in> set ns" and k: "2 * k < sz"
  shows "cell_addr c s sz n k \<in> chain_cells c s sz ns \<longleftrightarrow> k \<le> length ms"
proof
  assume "cell_addr c s sz n k \<in> chain_cells c s sz ns"
  then obtain n' ms' k' where m': "(n', ms') \<in> set ns" and k': "k' \<le> length ms'"
    and eq: "cell_addr c s sz n k = cell_addr c s sz n' k'"
    by (auto simp: chain_cells_def)
  from fr m' have "2 * length ms' < sz" by auto
  with k' have "2 * k' < sz" by simp
  from cell_addr_inj[OF k this eq] have nn: "n = n'" and kk: "k = k'" by simp_all
  from d m m' nn have "ms = ms'" by (metis eq_key_imp_eq_value)
  with k' kk show "k \<le> length ms" by simp
next
  assume "k \<le> length ms"
  with m show "cell_addr c s sz n k \<in> chain_cells c s sz ns"
    by (auto simp: chain_cells_def)
qed

lemma stored_embedded_node:
  assumes l: "legal_build c s sz cnt"
    and fr: "\<forall>(n, ms) \<in> set ns. n < cnt \<and> 2 * length ms < sz"
    and d: "distinct (map fst ns)" and m: "(n, ms) \<in> set ns"
    and dm: "dom mem = chain_cells c s sz ns"
  shows "stored_embedded mem (cell_addr c s sz n 0) sz = [1..<Suc (length ms)]"
proof -
  from fr m have n: "n < cnt" and len: "2 * length ms < sz" by auto
  have ev: "even sz" by (rule legal_size(4)[OF l])
  have "filter (\<lambda>k. mem (slot (cell_addr c s sz n 0) k) \<noteq> None) [1..<sz div 2]
          = filter (\<lambda>k. k \<le> length ms) [1..<sz div 2]"
  proof (rule filter_cong[OF refl])
    fix k assume "k \<in> set [1..<sz div 2]"
    then have "k < sz div 2" by simp
    then have k2: "2 * k < sz" by simp
    from legal_cell_slot[OF l n k2]
    have "slot (cell_addr c s sz n 0) k = cell_addr c s sz n k" .
    moreover have "mem (cell_addr c s sz n k) \<noteq> None \<longleftrightarrow> cell_addr c s sz n k \<in> dom mem"
      by (simp add: domIff)
    ultimately show "(mem (slot (cell_addr c s sz n 0) k) \<noteq> None) = (k \<le> length ms)"
      using chain_cells_node[OF fr d m k2, of c s] dm by simp
  qed
  also have "\<dots> = [1..<Suc (length ms)]"
  proof -
    have "length ms < sz div 2" using len ev by (elim evenE) simp
    then have "[1..<sz div 2] = [1..<Suc (length ms)] @ [Suc (length ms)..<sz div 2]"
      by (metis Suc_leI le_add1 plus_1_eq_Suc upt_add_eq_append le_Suc_ex add.commute)
    moreover have "filter (\<lambda>k. k \<le> length ms) [1..<Suc (length ms)] = [1..<Suc (length ms)]"
      by (rule filter_True) (simp del: upt_Suc)
    moreover have "filter (\<lambda>k. k \<le> length ms) [Suc (length ms)..<sz div 2] = []"
      by (rule filter_False) (simp del: upt_Suc)
    ultimately show ?thesis by (simp only: filter_append append_Nil2)
  qed
  finally show ?thesis by (simp add: stored_embedded_def sizeof_ObjIdx_def)
qed

lemma obj_addr_span:
  "first_page s' = first_page s \<Longrightarrow> obj_addr c s' sz i = obj_addr c s sz i"
  by (simp add: obj_addr_def)

lemma built_obj_addr:
  assumes l: "legal_build c s sz cnt" and b: "built c s sz cnt mem0 s' mem' ns"
    and n: "n < cnt"
  shows "obj_addr c s' sz (n * idx_step c sz) = cell_addr c s sz n 0"
  using legal_obj_addr[OF l n] obj_addr_span[OF built_span(1)[OF b]]
  by (simp add: cell_addr_def)

text \<open>
  C10. After \<^verbatim>\<open>BuildFreelist\<close> on a span whose memory holds nothing yet, every chain
  node after the head (the node that \<^verbatim>\<open>freelist_\<close> names) has an entry stored in
  each of its \<open>sz div sizeof_ObjIdx - 1\<close> embedded cells, its maximum; the head node
  has entries stored in exactly \<^verbatim>\<open>embed_count_\<close> embedded cells, at most the
  maximum: only the head may be partially filled.
\<close>

theorem BuildFreelist_only_head_partial:
  assumes l: "legal_build c s sz cnt"
  shows "\<exists>s' mem' nodes.
           BuildFreelist c s sz cnt Map.empty = Some (Inr (s', mem')) \<and>
           chain_nodes c s' sz mem' cnt (freelist s') (embed_count s') = Some nodes \<and>
           (\<forall>(i, es) \<in> set (tl nodes).
              length (stored_embedded mem' (obj_addr c s' sz i) sz) = sz div sizeof_ObjIdx - 1) \<and>
           (\<forall>(i, es) \<in> set (take 1 nodes).
              length (stored_embedded mem' (obj_addr c s' sz i) sz) = embed_count s' \<and>
              embed_count s' \<le> sz div sizeof_ObjIdx - 1)"
proof -
  from BuildFreelist_accounts[OF l, of Map.empty] obtain s' mem' ns where
    r: "BuildFreelist c s sz cnt Map.empty = Some (Inr (s', mem'))"
    and b: "built c s sz cnt Map.empty s' mem' ns"
    and cn: "chain_nodes c s' sz mem' cnt (freelist s') (embed_count s')
              = Some (scale_nodes (idx_step c sz) ns)" by blast
  let ?st = "idx_step c sz" and ?nodes = "scale_nodes (idx_step c sz) ns"
  note ch = built_chain[OF l b]
  from ch(6) have dm: "dom mem' = chain_cells c s sz ns" by simp
  have stored: "length (stored_embedded mem' (obj_addr c s' sz (n * ?st)) sz) = length ms"
    if m: "(n, ms) \<in> set ns" for n ms
  proof -
    from ch(2) m have n: "n < cnt" by auto
    from stored_embedded_node[OF l ch(2) ch(7) m dm]
    show ?thesis unfolding built_obj_addr[OF l b n] by (simp del: upt_Suc)
  qed
  have me: "max_embed_of sz = sz div sizeof_ObjIdx - 1" if "ns \<noteq> []"
  proof -
    from that ch(3) have "0 < cnt" by (cases ns) auto
    from legal_max_embed(1)[OF l this] show ?thesis by (simp add: sizeof_ObjIdx_def)
  qed
  have tl_nodes: "tl ?nodes = scale_nodes ?st (tl ns)"
    by (simp add: scale_nodes_def map_tl)
  have t: "\<forall>(i, es) \<in> set (tl ?nodes).
             length (stored_embedded mem' (obj_addr c s' sz i) sz) = sz div sizeof_ObjIdx - 1"
  proof (clarify)
    fix i es assume "(i, es) \<in> set (tl ?nodes)"
    then obtain n ms where m: "(n, ms) \<in> set (tl ns)" and i: "i = n * ?st"
      unfolding tl_nodes by (auto simp: scale_nodes_def)
    from m have ne: "ns \<noteq> []" and m': "(n, ms) \<in> set ns" by (cases ns; auto)+
    from chain_at_tail_lengths[OF ch(1) m] stored[OF m'] me[OF ne]
    show "length (stored_embedded mem' (obj_addr c s' sz i) sz) = sz div sizeof_ObjIdx - 1"
      unfolding i by simp
  qed
  have h: "\<forall>(i, es) \<in> set (take 1 ?nodes).
             length (stored_embedded mem' (obj_addr c s' sz i) sz) = embed_count s' \<and>
             embed_count s' \<le> sz div sizeof_ObjIdx - 1"
  proof (cases ns)
    case Nil
    then show ?thesis by (simp add: scale_nodes_def)
  next
    case (Cons x rest)
    obtain n ms where x: "x = (n, ms)" by (cases x)
    from ch(1) Cons x have len: "length ms = embed_count s'" by simp
    have m': "(n, ms) \<in> set ns" using Cons x by simp
    have ne: "ns \<noteq> []" using Cons by simp
    from stored[OF m'] len ch(5) me[OF ne] show ?thesis
      by (simp add: Cons x scale_nodes_def)
  qed
  from r cn t h show ?thesis by blast
qed

lemma legal_partial_head: "legal_build production_config stale_span 8 18"
  using wf_production_config
  by (simp add: legal_build_def stale_span_def kCacheSize_def
      mode_shift_def idx_step_def production_config_def kPageSize_def)

theorem BuildFreelist_only_head_partial_witness:
  "legal_build production_config stale_span 8 18 \<and>
   (\<exists>s' mem' nodes.
      BuildFreelist production_config stale_span 8 18 Map.empty = Some (Inr (s', mem')) \<and>
      chain_nodes production_config s' 8 mem' 18 (freelist s') (embed_count s') = Some nodes \<and>
      (\<forall>(i, es) \<in> set (tl nodes).
         length (stored_embedded mem' (obj_addr production_config s' 8 i) 8) = 3) \<and>
      (\<forall>(i, es) \<in> set (take 1 nodes).
         length (stored_embedded mem' (obj_addr production_config s' 8 i) 8) = embed_count s' \<and>
         embed_count s' \<le> 3))"
proof -
  have m: "8 div sizeof_ObjIdx - 1 = (3::nat)" by (simp add: sizeof_ObjIdx_def)
  from BuildFreelist_only_head_partial [OF legal_partial_head]
  show ?thesis unfolding m using legal_partial_head by blast
qed

section \<open>Popping until the span is empty\<close>

lemma IdxToPtrSized_mode:
  "IdxToPtrSized c s (mode_align c sz) idx sz = IdxToPtr c s idx sz"
  by (simp add: IdxToPtrSized_def IdxToPtr_def mode_align_def)

lemma PtrToIdx_span:
  "first_page t = first_page s \<Longrightarrow> PtrToIdx c t p sz = PtrToIdx c s p sz"
  by (simp add: PtrToIdx_def cong: if_cong)

lemma IdxToPtr_span:
  "first_page t = first_page s \<Longrightarrow> IdxToPtr c t idx sz = IdxToPtr c s idx sz"
proof -
  assume fp: "first_page t = first_page s"
  have p: "PtrToIdx c t p sz = PtrToIdx c s p sz" for p by (rule PtrToIdx_span[OF fp])
  show ?thesis unfolding IdxToPtr_def p fp ..
qed

lemma pop_state_IdxToPtr:
  assumes l: "legal_build c s sz cnt" and st: "pop_state c s sz cnt mem t cs ns"
    and n: "n < cnt"
  shows "IdxToPtrSized c t (mode_align c sz) (n * idx_step c sz) sz = Inr (cell_addr c s sz n 0)"
proof -
  from st have "first_page t = first_page s" by (simp add: pop_state_def)
  from IdxToPtr_span[OF this] legal_IdxToPtr[OF l n] show ?thesis
    by (simp add: IdxToPtrSized_mode cell_addr_def)
qed

lemma prepend_object_Inr:
  assumes "prepend_object p r = Inr (b, t')"
  obtains b' where "b = p # b'" and "r = Inr (b', t')"
  using assms by (auto simp: prepend_object_def split: sum.splits)

lemma pop_objects_length:
  "pop_objects c align sz mem k t = Inr (b, t') \<Longrightarrow> length b \<le> k"
proof (induction k arbitrary: t b t')
  case 0
  then show ?case by simp
next
  case (Suc k)
  have step: "length b \<le> Suc k" if "prepend_object p (pop_objects c align sz mem k t1) = Inr (b, t')"
    for p t1
  proof -
    from that obtain b' where b: "b = p # b'" and r: "pop_objects c align sz mem k t1 = Inr (b', t')"
      by (rule prepend_object_Inr)
    from Suc.IH[OF r] b show ?thesis by simp
  qed
  from Suc.prems show ?case
    by (auto simp: step split: if_splits sum.splits option.splits)
qed

lemma pop_seq_Nil_iff: "pop_seq cs ns = [] \<longleftrightarrow> cs = [] \<and> ns = []"
  by (cases ns) (auto simp: pop_seq_def)

lemma pop_done:
  assumes st: "pop_state c s sz cnt mem t cs ns" and e: "pop_seq cs ns = []"
  shows "pop_objects c align sz mem k t = Inr ([], t)"
proof (cases k)
  case 0
  then show ?thesis by simp
next
  case (Suc k')
  from e have "cs = []" "ns = []" by (simp_all add: pop_seq_Nil_iff)
  with st have "cache_size t = 0" "freelist t = kListEnd c" by (simp_all add: pop_state_def)
  then show ?thesis unfolding Suc by simp
qed

lemma pop_step:
  assumes l: "legal_build c s sz cnt" and st: "pop_state c s sz cnt mem t cs ns"
    and ne: "pop_seq cs ns \<noteq> []"
  shows "\<exists>x t1 cs1 ns1. pop_seq cs ns = x # pop_seq cs1 ns1 \<and> x < cnt \<and>
           pop_state c s sz cnt mem t1 cs1 ns1 \<and>
           (\<forall>k. pop_objects c (mode_align c sz) sz mem (Suc k) t
                 = prepend_object (cell_addr c s sz x 0)
                     (pop_objects c (mode_align c sz) sz mem k t1))"
proof -
  let ?st = "idx_step c sz" and ?al = "mode_align c sz"
  from st have fp: "first_page t = first_page s" and csz: "cache_size t = length cs"
    and cl: "length cs \<le> length (cache t)"
    and tk: "take (length cs) (cache t) = map (\<lambda>k. k * ?st) cs"
    and cb: "\<forall>k \<in> set cs. k < cnt"
    and ch: "chain_at c s sz mem (freelist t) (embed_count t) ns"
    and nb: "\<forall>(n, ms) \<in> set ns. n < cnt \<and> 2 * length ms < sz \<and> (\<forall>m \<in> set ms. m < cnt)"
    by (simp_all add: pop_state_def)
  show ?thesis
  proof (cases cs rule: rev_cases)
    case (snoc cs0 x)
    have x: "x < cnt" using cb snoc by simp
    have "cache t ! length cs0 = take (length cs) (cache t) ! length cs0"
      using snoc by simp
    also have "\<dots> = x * ?st" unfolding tk using snoc by (simp add: nth_append)
    finally have ce: "cache t ! (cache_size t - 1) = x * ?st" using csz snoc by simp
    let ?t1 = "t\<lparr>cache_size := cache_size t - 1\<rparr>"
    have "take (length cs0) (cache t) = take (length cs0) (take (length cs) (cache t))"
      using snoc by simp
    also have "\<dots> = map (\<lambda>k. k * ?st) cs0" unfolding tk using snoc by simp
    finally have tk0: "take (length cs0) (cache t) = map (\<lambda>k. k * ?st) cs0" .
    have st1: "pop_state c s sz cnt mem ?t1 cs0 ns"
      unfolding pop_state_def using fp csz cl tk0 cb ch nb snoc by simp
    have sq: "pop_seq cs ns = x # pop_seq cs0 ns" using snoc by (simp add: pop_seq_def)
    have "pop_objects c ?al sz mem (Suc k) t
            = prepend_object (cell_addr c s sz x 0) (pop_objects c ?al sz mem k ?t1)" for k
      using csz cl snoc ce pop_state_IdxToPtr[OF l st x] by simp
    with sq x st1 show ?thesis by blast
  next
    case Nil
    with csz have c0: "cache_size t = 0" by simp
    from ne Nil obtain nd rest where ns: "ns = nd # rest"
      by (cases ns) (auto simp: pop_seq_def)
    obtain n ms where nd: "nd = (n, ms)" by (cases nd)
    from nb ns nd have n: "n < cnt" and len: "2 * length ms < sz"
      and mb: "\<forall>m \<in> set ms. m < cnt"
      and nbr: "\<forall>(n, ms) \<in> set rest. n < cnt \<and> 2 * length ms < sz \<and> (\<forall>m \<in> set ms. m < cnt)"
      by auto
    from ch ns nd obtain nxt where
      fl: "freelist t = n * ?st" and ec: "length ms = embed_count t"
      and ent: "\<forall>k<embed_count t. mem (cell_addr c s sz n (Suc k)) = Some (ms ! k * ?st)"
      and lnk: "mem (cell_addr c s sz n 0) = Some nxt"
      and rst: "chain_at c s sz mem nxt (max_embed_of sz) rest"
      by auto
    have fne: "freelist t \<noteq> kListEnd c"
      using legal_index_bound(1)[OF l, of n] n fl by simp
    have host: "IdxToPtrSized c t ?al (freelist t) sz = Inr (cell_addr c s sz n 0)"
      unfolding fl by (rule pop_state_IdxToPtr[OF l st n])
    show ?thesis
    proof (cases ms rule: rev_cases)
      case Nil
      with ec have e0: "embed_count t = 0" by simp
      have "2 * 0 < sz" using legal_size(5)[OF l] by simp
      from legal_cell_slot[OF l n this]
      have s0: "slot (cell_addr c s sz n 0) 0 = cell_addr c s sz n 0" .
      let ?t1 = "t\<lparr>freelist := nxt, embed_count := max_embed_of sz\<rparr>"
      have st1: "pop_state c s sz cnt mem ?t1 [] rest"
        unfolding pop_state_def using fp c0 rst nbr by simp
      have sq: "pop_seq cs ns = n # pop_seq [] rest"
        using \<open>cs = []\<close> ns nd Nil by (simp add: pop_seq_def)
      have "pop_objects c ?al sz mem (Suc k) t
              = prepend_object (cell_addr c s sz n 0) (pop_objects c ?al sz mem k ?t1)" for k
        using c0 fne host e0 s0 lnk by simp
      with sq n st1 show ?thesis by blast
    next
      case (snoc ms0 m)
      have m: "m < cnt" using mb snoc by simp
      have e1: "embed_count t = Suc (length ms0)" using ec snoc by simp
      have "2 * Suc (length ms0) < sz" using len snoc by simp
      from legal_cell_slot[OF l n this]
      have s1: "slot (cell_addr c s sz n 0) (Suc (length ms0))
                  = cell_addr c s sz n (Suc (length ms0))" .
      have rd: "mem (cell_addr c s sz n (Suc (length ms0))) = Some (m * ?st)"
        using ent e1 snoc by simp
      let ?t1 = "t\<lparr>embed_count := embed_count t - 1\<rparr>"
      have ch1: "chain_at c s sz mem (freelist ?t1) (embed_count ?t1) ((n, ms0) # rest)"
        using fl e1 ent snoc lnk rst by (auto simp: nth_append)
      have "2 * length ms0 < sz" using len snoc by simp
      then have nb1: "\<forall>(n, ms) \<in> set ((n, ms0) # rest).
                        n < cnt \<and> 2 * length ms < sz \<and> (\<forall>m \<in> set ms. m < cnt)"
        using n mb snoc nbr by simp
      have st1: "pop_state c s sz cnt mem ?t1 [] ((n, ms0) # rest)"
        unfolding pop_state_def using fp c0 ch1 nb1 by simp
      have sq: "pop_seq cs ns = m # pop_seq [] ((n, ms0) # rest)"
        using \<open>cs = []\<close> ns nd snoc by (simp add: pop_seq_def)
      have "pop_objects c ?al sz mem (Suc k) t
              = prepend_object (cell_addr c s sz m 0) (pop_objects c ?al sz mem k ?t1)" for k
        using c0 fne host e1 s1 rd pop_state_IdxToPtr[OF l st m] by simp
      with sq m st1 show ?thesis by blast
    qed
  qed
qed

lemma pop_objects_correct:
  assumes l: "legal_build c s sz cnt"
  shows "pop_state c s sz cnt mem t cs ns \<Longrightarrow>
         \<exists>t' cs' ns'.
           pop_objects c (mode_align c sz) sz mem k t
             = Inr (map (\<lambda>x. cell_addr c s sz x 0) (take k (pop_seq cs ns)), t') \<and>
           pop_state c s sz cnt mem t' cs' ns' \<and>
           pop_seq cs' ns' = drop k (pop_seq cs ns)"
proof (induction k arbitrary: t cs ns)
  case 0
  then show ?case by auto
next
  case (Suc k)
  show ?case
  proof (cases "pop_seq cs ns = []")
    case True
    have "pop_objects c (mode_align c sz) sz mem (Suc k) t = Inr ([], t)"
      by (rule pop_done[OF Suc.prems True])
    with True Suc.prems show ?thesis
      by (intro exI[of _ t] exI[of _ cs] exI[of _ ns]) (simp del: pop_objects.simps)
  next
    case False
    from pop_step[OF l Suc.prems False] obtain x t1 cs1 ns1 where
      sq: "pop_seq cs ns = x # pop_seq cs1 ns1"
      and st1: "pop_state c s sz cnt mem t1 cs1 ns1"
      and eq: "pop_objects c (mode_align c sz) sz mem (Suc k) t
                 = prepend_object (cell_addr c s sz x 0)
                     (pop_objects c (mode_align c sz) sz mem k t1)"
      by blast
    from Suc.IH[OF st1] obtain t' cs' ns' where
      r: "pop_objects c (mode_align c sz) sz mem k t1
            = Inr (map (\<lambda>x. cell_addr c s sz x 0) (take k (pop_seq cs1 ns1)), t')"
      and st': "pop_state c s sz cnt mem t' cs' ns'"
      and d: "pop_seq cs' ns' = drop k (pop_seq cs1 ns1)"
      by blast
    have "pop_objects c (mode_align c sz) sz mem (Suc k) t
            = Inr (map (\<lambda>x. cell_addr c s sz x 0) (take (Suc k) (pop_seq cs ns)), t')"
      unfolding eq r sq by (simp add: prepend_object_def)
    moreover have "pop_seq cs' ns' = drop (Suc k) (pop_seq cs ns)" unfolding sq d by simp
    ultimately show ?thesis using st' by blast
  qed
qed

lemma pop_state_allocated:
  "pop_state c s sz cnt mem t cs ns \<Longrightarrow> pop_state c s sz cnt mem (t\<lparr>allocated := a\<rparr>) cs ns"
  by (simp add: pop_state_def)

lemma FreelistPopBatch_correct:
  assumes l: "legal_build c s sz cnt" and st: "pop_state c s sz cnt mem t cs ns"
  shows "\<exists>t' cs' ns'.
           FreelistPopBatch c mem t N sz
             = Inr (map (\<lambda>x. cell_addr c s sz x 0) (take N (pop_seq cs ns)), t') \<and>
           pop_state c s sz cnt mem t' cs' ns' \<and>
           pop_seq cs' ns' = drop N (pop_seq cs ns)"
proof -
  from pop_objects_correct[OF l st, of N] obtain t' cs' ns' where
    r: "pop_objects c (mode_align c sz) sz mem N t
          = Inr (map (\<lambda>x. cell_addr c s sz x 0) (take N (pop_seq cs ns)), t')"
    and st': "pop_state c s sz cnt mem t' cs' ns'"
    and d: "pop_seq cs' ns' = drop N (pop_seq cs ns)" by blast
  have "FreelistPopBatch c mem t N sz = FreelistPopBatchSized c (mode_align c sz) mem t N sz"
    by (simp add: FreelistPopBatch_def mode_align_def)
  then have "FreelistPopBatch c mem t N sz
      = Inr (map (\<lambda>x. cell_addr c s sz x 0) (take N (pop_seq cs ns)),
             t'\<lparr>allocated := u16 (allocated t'
                + length (map (\<lambda>x. cell_addr c s sz x 0) (take N (pop_seq cs ns))))\<rparr>)"
    by (simp add: FreelistPopBatchSized_def r)
  with pop_state_allocated[OF st'] d show ?thesis by blast
qed

lemma pop_until_empty_correct:
  assumes l: "legal_build c s sz cnt" and N: "0 < N"
  shows "pop_state c s sz cnt mem t cs ns \<Longrightarrow>
         \<exists>t'. pop_until_empty c mem N sz t acc
                = Some (Inr (acc @ map (\<lambda>x. cell_addr c s sz x 0) (pop_seq cs ns), t'))"
proof (induction "length (pop_seq cs ns)" arbitrary: t cs ns acc rule: less_induct)
  case less
  from FreelistPopBatch_correct[OF l less.prems, of N] obtain t' cs' ns' where
    r: "FreelistPopBatch c mem t N sz
          = Inr (map (\<lambda>x. cell_addr c s sz x 0) (take N (pop_seq cs ns)), t')"
    and st': "pop_state c s sz cnt mem t' cs' ns'"
    and d: "pop_seq cs' ns' = drop N (pop_seq cs ns)" by blast
  show ?case
  proof (cases "pop_seq cs ns = []")
    case True
    have "pop_until_empty c mem N sz t acc = Some (Inr (acc, t'))"
      by (subst pop_until_empty.simps) (simp add: r True)
    with True show ?thesis by simp
  next
    case False
    then have ne: "take N (pop_seq cs ns) \<noteq> []" using N by (cases "pop_seq cs ns") auto
    have shorter: "length (pop_seq cs' ns') < length (pop_seq cs ns)"
      unfolding d using False N by simp
    from less.hyps[OF shorter st', of "acc @ map (\<lambda>x. cell_addr c s sz x 0) (take N (pop_seq cs ns))"]
    obtain t'' where
      rec: "pop_until_empty c mem N sz t' (acc @ map (\<lambda>x. cell_addr c s sz x 0) (take N (pop_seq cs ns)))
            = Some (Inr ((acc @ map (\<lambda>x. cell_addr c s sz x 0) (take N (pop_seq cs ns)))
                          @ map (\<lambda>x. cell_addr c s sz x 0) (pop_seq cs' ns'), t''))"
      by blast
    have "map (\<lambda>x. cell_addr c s sz x 0) (take N (pop_seq cs ns))
            @ map (\<lambda>x. cell_addr c s sz x 0) (pop_seq cs' ns')
          = map (\<lambda>x. cell_addr c s sz x 0) (pop_seq cs ns)"
      unfolding d by (simp flip: map_append)
    then have whole: "(acc @ map (\<lambda>x. cell_addr c s sz x 0) (take N (pop_seq cs ns)))
            @ map (\<lambda>x. cell_addr c s sz x 0) (pop_seq cs' ns')
          = acc @ map (\<lambda>x. cell_addr c s sz x 0) (pop_seq cs ns)"
      by simp
    have "pop_until_empty c mem N sz t acc
            = pop_until_empty c mem N sz t'
                (acc @ map (\<lambda>x. cell_addr c s sz x 0) (take N (pop_seq cs ns)))"
      using ne by (subst pop_until_empty.simps) (simp add: r)
    with rec whole show ?thesis by simp
  qed
qed

lemma mset_pop_seq:
  "mset (pop_seq cs ns) = mset cs + (mset (map fst ns) + mset (concat (map snd ns)))"
  by (induction ns) (auto simp: pop_seq_def)

lemma cached_count_le: "cached_count cnt \<le> cnt" "cached_count cnt \<le> kCacheSize"
  by (simp_all add: cached_count_def)

lemma built_pop_state:
  assumes l: "legal_build c s sz cnt" and b: "built c s sz cnt mem0 s' mem' ns"
  shows "pop_state c s sz cnt mem' s' [0..<cached_count cnt] ns"
proof -
  note sp = built_span[OF b] and ch = built_chain[OF l b]
  have tk: "take (length [0..<cached_count cnt]) (cache s')
              = map (\<lambda>k. k * idx_step c sz) [0..<cached_count cnt]"
    using sp(5) sp(2) by (simp add: cache_indices_def)
  have nb: "\<forall>(n, ms) \<in> set ns. n < cnt \<and> 2 * length ms < sz \<and> (\<forall>m \<in> set ms. m < cnt)"
  proof (clarify, intro conjI ballI)
    fix n ms assume m: "(n, ms) \<in> set ns"
    with ch(2) show "n < cnt" "2 * length ms < sz" by auto
    fix x assume "x \<in> set ms"
    with m have "x \<in> set (concat (map snd ns))" by force
    then have "x \<in># mset (map fst ns) + mset (concat (map snd ns))" by simp
    then have "x \<in># mset [cached_count cnt..<cnt]" unfolding ch(4) .
    then show "x < cnt" by simp
  qed
  show ?thesis
    unfolding pop_state_def
    using sp(1,2,4) tk ch(1) nb cached_count_le[of cnt] by simp
qed

lemma built_pop_seq:
  assumes l: "legal_build c s sz cnt" and b: "built c s sz cnt mem0 s' mem' ns"
  shows "mset (pop_seq [0..<cached_count cnt] ns) = mset [0..<cnt]"
proof -
  have "[0..<cnt] = [0..<cached_count cnt] @ [cached_count cnt..<cnt]"
    using cached_count_le(1)[of cnt] by (metis le_Suc_ex upt_add_eq_append zero_le)
  then show ?thesis
    unfolding mset_pop_seq built_chain(4)[OF l b] by (simp only: mset_append)
qed

lemma legal_start:
  assumes l: "legal_build c s sz cnt"
  shows "start_uintptr c (first_page s) = span_base c s"
proof -
  from l have "first_page s * kPageSize c + cnt * sz < 2 ^ 64" by (simp add: legal_build_def)
  from start_uintptr_exact[OF this] show ?thesis by (simp add: span_base_def)
qed

text \<open>
  C4. For every legal input of \<^verbatim>\<open>BuildFreelist\<close> whose objects fit the span's bytes
  and every batch size \<open>N > 0\<close>: calling \<^verbatim>\<open>FreelistPopBatch\<close> on the built span with
  \<open>N\<close> until a call returns 0 ends, with no error, and yields \<open>cnt\<close> pointers in total,
  all distinct; they are the addresses of the span's \<open>cnt\<close> objects, each inside the
  span's address range. Every call of \<^verbatim>\<open>FreelistPopBatch\<close>, on any span and memory,
  returns at most as many pointers as were asked for.
\<close>

theorem FreelistPopBatch_exhausts:
  assumes l: "legal_build c s sz cnt" and N: "0 < N" and fit: "cnt * sz \<le> bytes_in_span c s"
  shows "\<exists>s1 mem1 ps s2.
           BuildFreelist c s sz cnt mem = Some (Inr (s1, mem1)) \<and>
           pop_until_empty c mem1 N sz s1 [] = Some (Inr (ps, s2)) \<and>
           length ps = cnt \<and> distinct ps \<and>
           set ps = (\<lambda>k. start_uintptr c (first_page s) + k * sz) ` {..<cnt} \<and>
           (\<forall>p \<in> set ps. start_uintptr c (first_page s) \<le> p \<and>
              p + sz \<le> start_uintptr c (first_page s) + bytes_in_span c s) \<and>
           (\<forall>m t n b t'. FreelistPopBatch c m t n sz = Inr (b, t') \<longrightarrow> length b \<le> n)"
proof -
  from BuildFreelist_built[OF l, of mem] obtain s1 mem1 ns where
    r: "BuildFreelist c s sz cnt mem = Some (Inr (s1, mem1))"
    and b: "built c s sz cnt mem s1 mem1 ns" by blast
  let ?seq = "pop_seq [0..<cached_count cnt] ns"
  let ?addr = "\<lambda>k. start_uintptr c (first_page s) + k * sz"
  have addr: "cell_addr c s sz x 0 = ?addr x" for x
    by (simp add: cell_addr_def legal_start[OF l])
  from pop_until_empty_correct[OF l N built_pop_state[OF l b], of "[]"] obtain s2 where
    "pop_until_empty c mem1 N sz s1 [] = Some (Inr ([] @ map (\<lambda>x. cell_addr c s sz x 0) ?seq, s2))"
    by blast
  then have d: "pop_until_empty c mem1 N sz s1 [] = Some (Inr (map ?addr ?seq, s2))"
    by (simp add: addr)
  note ms = built_pop_seq[OF l b]
  have len: "length (map ?addr ?seq) = cnt" using mset_eq_length[OF ms] by simp
  have "set ?seq = set [0..<cnt]" by (rule mset_eq_setD[OF ms])
  then have sq: "set ?seq = {..<cnt}" by (simp only: set_upt atLeast0LessThan)
  have dq: "distinct ?seq" using mset_eq_imp_distinct_iff[OF ms] by simp
  have sz0: "0 < sz" using legal_size(5)[OF l] by simp
  have "inj_on ?addr (set ?seq)" using sz0 by (simp add: inj_on_def)
  with dq have dist: "distinct (map ?addr ?seq)" by (simp add: distinct_map)
  have st: "set (map ?addr ?seq) = ?addr ` {..<cnt}" using sq by simp
  have rng: "\<forall>p \<in> set (map ?addr ?seq). start_uintptr c (first_page s) \<le> p \<and>
              p + sz \<le> start_uintptr c (first_page s) + bytes_in_span c s"
  proof
    fix p assume "p \<in> set (map ?addr ?seq)"
    with st obtain k where k: "k < cnt" and p: "p = ?addr k" by auto
    have "k * sz + sz \<le> cnt * sz" using k
      by (metis Suc_leI mult_Suc mult_le_mono1 add.commute)
    with fit p show "start_uintptr c (first_page s) \<le> p \<and>
              p + sz \<le> start_uintptr c (first_page s) + bytes_in_span c s" by simp
  qed
  have bound: "\<forall>m t n b t'. FreelistPopBatch c m t n sz = Inr (b, t') \<longrightarrow> length b \<le> n"
  proof (intro allI impI)
    fix m t n b t' assume a: "FreelistPopBatch c m t n sz = Inr (b, t')"
    then obtain al t0 where "pop_objects c al sz m n t = Inr (b, t0)"
      by (auto simp: FreelistPopBatch_def FreelistPopBatchSized_def
          split: if_splits sum.splits)
    then show "length b \<le> n" by (rule pop_objects_length)
  qed
  show ?thesis
    by (intro exI[of _ s1] exI[of _ mem1] exI[of _ "map ?addr ?seq"] exI[of _ s2] conjI
        r d len dist st rng bound)
qed

lemma legal_large: "legal_build debug_config stale_span 1024 7"
  using wf_debug_config
  by (simp add: legal_build_def stale_span_def kCacheSize_def
      mode_shift_def idx_step_def debug_config_def kPageSize_def)

theorem FreelistPopBatch_exhausts_witness:
  "legal_build debug_config stale_span 1024 7 \<and> (0::nat) < 3 \<and>
   7 * 1024 \<le> bytes_in_span debug_config stale_span \<and>
   (\<exists>s1 mem1 ps s2.
      BuildFreelist debug_config stale_span 1024 7 Map.empty = Some (Inr (s1, mem1)) \<and>
      pop_until_empty debug_config mem1 3 1024 s1 [] = Some (Inr (ps, s2)) \<and>
      length ps = 7 \<and> distinct ps \<and>
      set ps = (\<lambda>k. 40960 + k * 1024) ` {..<7} \<and>
      (\<forall>p \<in> set ps. 40960 \<le> p \<and> p + 1024 \<le> 40960 + 8192))"
proof -
  have n: "(0::nat) < 3" by simp
  have b: "bytes_in_span debug_config stale_span = 8192"
    by (simp add: bytes_in_span_def u64_def debug_config_def stale_span_def)
  then have f: "7 * 1024 \<le> bytes_in_span debug_config stale_span" by simp
  have st: "start_uintptr debug_config (first_page stale_span) = 40960"
    by (simp add: start_uintptr_def u64_def debug_config_def stale_span_def)
  from FreelistPopBatch_exhausts [OF legal_large n f, of Map.empty]
  show ?thesis unfolding st b using legal_large n f[unfolded b] by blast
qed

end
